theory Spec2Isabelle
  imports Main "HOL-Library.Word"
begin

unbundle bit_operations_syntax

section \<open>JavaScript primitives used by the codec\<close>

text \<open>
  A JavaScript string is modelled as a \<^typ>\<open>string\<close>, one \<^typ>\<open>char\<close> per code unit
  (code units below 256). An exception is a value \<open>Error msg\<close> carrying the message;
  a function that may throw returns \<open>error + 'a\<close> with \<open>Inl\<close> for the throw.
\<close>

datatype error = Error string

text \<open>\<open>s.startsWith(p)\<close>.\<close>

definition startsWith :: "string \<Rightarrow> string \<Rightarrow> bool" where
  "startsWith s p = (take (length p) s = p)"

text \<open>\<open>s.slice(start, end)\<close> on strings and arrays: a negative index counts from the end,
  both indices are clamped to the length.\<close>

definition slice :: "'a list \<Rightarrow> int \<Rightarrow> int \<Rightarrow> 'a list" where
  "slice s start end =
     (let n = int (length s);
          from = (if start < 0 then max (n + start) 0 else min start n);
          to = (if end < 0 then max (n + end) 0 else min end n)
      in take (nat (to - from)) (drop (nat from) s))"

text \<open>\<open>a.slice(start)\<close>: the end defaults to the length.\<close>

definition sliceFrom :: "'a list \<Rightarrow> int \<Rightarrow> 'a list" where
  "sliceFrom s start = slice s start (int (length s))"

text \<open>\<open>s.indexOf(c)\<close> for a one-character \<open>c\<close>; \<open>None\<close> stands for the result \<open>-1\<close>.\<close>

fun indexOf :: "string \<Rightarrow> char \<Rightarrow> nat option" where
  "indexOf [] c = None"
| "indexOf (x # xs) c =
     (if x = c then Some 0 else (case indexOf xs c of None \<Rightarrow> None | Some i \<Rightarrow> Some (Suc i)))"

text \<open>\<open>s.padStart(n, '0')\<close>.\<close>

definition padStart :: "string \<Rightarrow> nat \<Rightarrow> string" where
  "padStart s n = replicate (n - length s) CHR ''0'' @ s"

text \<open>\<open>b.toString(16)\<close> for a non-negative integer; \<open>lowerHex\<close> is the set of the
  characters it is written with.\<close>

definition lowerHex :: "char set" where
  "lowerHex = set ''0123456789abcdef''"

definition hexDigit :: "nat \<Rightarrow> char" where
  "hexDigit d = ''0123456789abcdef'' ! d"

fun toString16 :: "nat \<Rightarrow> string" where
  "toString16 n = (if n < 16 then [hexDigit n] else toString16 (n div 16) @ [hexDigit (n mod 16)])"

declare toString16.simps [simp del]

text \<open>
  \<open>parseInt(s, 16)\<close>: leading white space is skipped, then an optional sign, then an
  optional \<open>0x\<close> or \<open>0X\<close>, then the longest run of hexadecimal digits is read; an empty
  run gives \<open>NaN\<close>, which is \<open>None\<close> here.
\<close>

definition isWhiteSpace :: "char \<Rightarrow> bool" where
  "isWhiteSpace c = (of_char c \<in> {9, 10, 11, 12, 13, 32, 160 :: nat})"

definition digitValue :: "char \<Rightarrow> nat option" where
  "digitValue c =
     (let k = (of_char c :: nat) in
      if 48 \<le> k \<and> k \<le> 57 then Some (k - 48)
      else if 97 \<le> k \<and> k \<le> 102 then Some (k - 87)
      else if 65 \<le> k \<and> k \<le> 70 then Some (k - 55)
      else None)"

fun readDigits :: "string \<Rightarrow> nat option \<Rightarrow> nat option" where
  "readDigits [] acc = acc"
| "readDigits (c # cs) acc =
     (case digitValue c of
        None \<Rightarrow> acc
      | Some d \<Rightarrow> readDigits cs (Some ((case acc of None \<Rightarrow> 0 | Some a \<Rightarrow> a) * 16 + d)))"

definition parseInt16 :: "string \<Rightarrow> int option" where
  "parseInt16 s =
     (let t = dropWhile isWhiteSpace s;
          neg = (t \<noteq> [] \<and> hd t = CHR ''-'');
          u = (if t \<noteq> [] \<and> (hd t = CHR ''-'' \<or> hd t = CHR ''+'') then tl t else t);
          v = (if startsWith u ''0x'' \<or> startsWith u ''0X'' then drop 2 u else u)
      in case readDigits v None of
           None \<Rightarrow> None
         | Some m \<Rightarrow> Some (if neg then - int m else int m))"

text \<open>The conversion of the operand of a bitwise operator to a 32-bit integer: \<open>NaN\<close> is 0.\<close>

definition toInt32 :: "int option \<Rightarrow> 32 word" where
  "toInt32 v = (case v of None \<Rightarrow> 0 | Some i \<Rightarrow> word_of_int i)"

section \<open>CryptoUtils\<close>

definition BECH32_CHARSET :: string where
  "BECH32_CHARSET = ''qpzry9x8gf2tvdw0s3jn54khce6mua7l''"

definition BECH32_GENERATOR :: "32 word list" where
  "BECH32_GENERATOR = [0x3b6a57b2, 0x26508e6d, 0x1ea119fa, 0x3d4233dd, 0x2a1462b3]"

subsection \<open>decodeNpub\<close>

text \<open>The first loop of \<open>decodeNpub\<close>: every character of the body is looked up in the
  charset; the first character that is not there throws.\<close>

fun decodeChars :: "string \<Rightarrow> error + nat list" where
  "decodeChars [] = Inr []"
| "decodeChars (c # cs) =
     (case indexOf BECH32_CHARSET c of
        None \<Rightarrow> Inl (Error (''Invalid character: '' @ [c]))
      | Some v \<Rightarrow> (case decodeChars cs of Inl e \<Rightarrow> Inl e | Inr vs \<Rightarrow> Inr (v # vs)))"

text \<open>
  The accumulator \<open>acc\<close> is the operand of \<open><<\<close>, \<open>|\<close> and \<open>>>>\<close>, so it is a 32-bit
  integer; \<open>bits\<close> stays below 13, so no shift count reaches 32.
  \<open>while (bits >= 8) { bits -= 8; converted.push((acc >>> bits) & 0xff); }\<close>
\<close>

function drain8 :: "32 word \<Rightarrow> nat \<Rightarrow> nat list \<Rightarrow> nat \<times> nat list" where
  "drain8 acc bits converted =
     (if bits \<ge> 8
      then drain8 acc (bits - 8) (converted @ [unat (drop_bit (bits - 8) acc AND 0xff)])
      else (bits, converted))"
  by pat_completeness auto
termination
  by (relation "measure (\<lambda>(acc, bits, converted). bits)") auto

declare drain8.simps [simp del]

text \<open>\<open>for (const value of decoded) { acc = (acc << 5) | value; bits += 5; while ... }\<close>\<close>

fun fiveToEight :: "nat list \<Rightarrow> 32 word \<Rightarrow> nat \<Rightarrow> nat list \<Rightarrow> nat list" where
  "fiveToEight [] acc bits converted = converted"
| "fiveToEight (v # vs) acc bits converted =
     (let acc' = push_bit 5 acc OR word_of_nat v;
          (bits', converted') = drain8 acc' (bits + 5) converted
      in fiveToEight vs acc' bits' converted')"

text \<open>The last step of both decoders: a leading zero byte is dropped.\<close>

definition dropVersion :: "nat list \<Rightarrow> nat list" where
  "dropVersion converted =
     (if length converted > 0 \<and> converted ! 0 = 0 then sliceFrom converted 1 else converted)"

definition decodeNpub :: "string \<Rightarrow> error + nat list" where
  "decodeNpub npub =
     (if \<not> startsWith npub ''npub1'' then Inl (Error ''Must start with npub1'')
      else case decodeChars (slice npub 5 (- 6)) of
             Inl e \<Rightarrow> Inl e
           | Inr decoded \<Rightarrow> Inr (dropVersion (fiveToEight decoded 0 0 [])))"

subsection \<open>bech32Checksum\<close>

text \<open>
  \<open>chk\<close> is only ever the result of a bitwise operator, so it is a signed 32-bit integer:
  \<open><<\<close> is \<open>push_bit\<close>, \<open>>>\<close> is the arithmetic shift \<open>signed_drop_bit\<close>.
  \<open>for (let j = 0; j < 5; j++) if ((chk >> j) & 1) chk ^= BECH32_GENERATOR[j];\<close>
\<close>

definition generatorLoop :: "32 word \<Rightarrow> 32 word" where
  "generatorLoop chk =
     foldl (\<lambda>chk j. if signed_drop_bit j chk AND 1 \<noteq> 0 then chk XOR BECH32_GENERATOR ! j else chk)
       chk [0 ..< 5]"

text \<open>\<open>chk = (chk << 5) ^ (chk >> 27)\<close> followed by the generator loop.\<close>

definition rotateStep :: "32 word \<Rightarrow> 32 word" where
  "rotateStep chk = generatorLoop (push_bit 5 chk XOR signed_drop_bit 27 chk)"

definition bech32Checksum :: "string \<Rightarrow> nat list \<Rightarrow> nat list" where
  "bech32Checksum hrp data =
     (let chk = (1 :: 32 word);
          chk = foldl (\<lambda>chk c. rotateStep (chk XOR word_of_nat (drop_bit 5 (of_char c :: nat)))) chk hrp;
          chk = rotateStep chk;
          chk = foldl (\<lambda>chk c. rotateStep (chk XOR word_of_nat (of_char c AND (31 :: nat)))) chk hrp;
          chk = foldl (\<lambda>chk v. rotateStep (chk XOR word_of_nat v)) chk data;
          chk = foldl (\<lambda>chk i. rotateStep chk) chk [0 ..< 6 :: nat];
          chk = chk XOR 1
      in map (\<lambda>i. unat (signed_drop_bit (5 * (5 - i)) chk AND 31)) [0 ..< 6])"

subsection \<open>hexToNpub\<close>

text \<open>\<open>hex.replace(/^0x/, '')\<close>\<close>

definition strip0x :: "string \<Rightarrow> string" where
  "strip0x hex = (if startsWith hex ''0x'' then drop 2 hex else hex)"

text \<open>\<open>for (let i = 0; i < hex.length; i += 2) bytes.push(parseInt(hex.substr(i, 2), 16));\<close>
  An entry is \<open>None\<close> where \<open>parseInt\<close> gives \<open>NaN\<close>.\<close>

fun hexBytes :: "string \<Rightarrow> int option list" where
  "hexBytes [] = []"
| "hexBytes [c] = [parseInt16 [c]]"
| "hexBytes (c # d # cs) = parseInt16 [c, d] # hexBytes cs"

text \<open>\<open>while (bits >= 5) { bits -= 5; converted.push((acc >>> bits) & 31); }\<close>\<close>

function drain5 :: "32 word \<Rightarrow> nat \<Rightarrow> nat list \<Rightarrow> nat \<times> nat list" where
  "drain5 acc bits converted =
     (if bits \<ge> 5
      then drain5 acc (bits - 5) (converted @ [unat (drop_bit (bits - 5) acc AND 31)])
      else (bits, converted))"
  by pat_completeness auto
termination
  by (relation "measure (\<lambda>(acc, bits, converted). bits)") auto

declare drain5.simps [simp del]

text \<open>
  \<open>for (const value of data) { acc = (acc << 8) | value; bits += 8; while ... }\<close>
  \<open>if (bits > 0) converted.push((acc << (5 - bits)) & 31);\<close>
\<close>

fun eightToFive :: "int option list \<Rightarrow> 32 word \<Rightarrow> nat \<Rightarrow> nat list \<Rightarrow> nat list" where
  "eightToFive [] acc bits converted =
     (if bits > 0 then converted @ [unat (push_bit (5 - bits) acc AND 31)] else converted)"
| "eightToFive (v # vs) acc bits converted =
     (let acc' = push_bit 8 acc OR toInt32 v;
          (bits', converted') = drain5 acc' (bits + 8) converted
      in eightToFive vs acc' bits' converted')"

text \<open>
  The body of \<open>hexToNpub\<close>. The source writes the prefix \<open>npub\<close> literally, once as the
  argument of \<open>bech32Checksum\<close> and once in \<open>'npub1'\<close>; here it is the parameter \<open>hrp\<close>,
  and \<open>hexToNpub\<close> is the instance the source has.
\<close>

definition hexToBech32 :: "string \<Rightarrow> string \<Rightarrow> string" where
  "hexToBech32 hrp hex =
     (let hex = padStart (strip0x hex) 64;
          bytes = hexBytes hex;
          data = Some 0 # bytes;
          converted = eightToFive data 0 0 [];
          checksum = bech32Checksum hrp converted;
          allData = converted @ checksum
      in (hrp @ ''1'') @ map (\<lambda>val. BECH32_CHARSET ! val) allData)"

definition hexToNpub :: "string \<Rightarrow> string" where
  "hexToNpub hex = hexToBech32 ''npub'' hex"

subsection \<open>npubToHex, validatePubkey, normalizeKey\<close>

text \<open>\<open>bytes.map(b => b.toString(16).padStart(2, '0')).join('')\<close>\<close>

definition bytesToHex :: "nat list \<Rightarrow> string" where
  "bytesToHex bytes = concat (map (\<lambda>b. padStart (toString16 b) 2) bytes)"

definition npubToHex :: "string \<Rightarrow> error + string" where
  "npubToHex npub =
     (if startsWith npub ''npub'' then
        (case decodeNpub npub of
           Inl (Error msg) \<Rightarrow> Inl (Error (''Invalid npub format: '' @ msg))
         | Inr bytes \<Rightarrow> Inr (padStart (bytesToHex bytes) 64))
      else Inr npub)"

text \<open>The regular expression \<open>/^[0-9a-fA-F]{64}$/\<close>, which has no flag: \<open>$\<close> is the end of
  the string.\<close>

definition isHexChar :: "char \<Rightarrow> bool" where
  "isHexChar c =
     (let k = (of_char c :: nat) in
      (48 \<le> k \<and> k \<le> 57) \<or> (97 \<le> k \<and> k \<le> 102) \<or> (65 \<le> k \<and> k \<le> 70))"

fun matchHex :: "nat \<Rightarrow> string \<Rightarrow> bool" where
  "matchHex 0 s = (s = [])"
| "matchHex (Suc n) [] = False"
| "matchHex (Suc n) (c # cs) = (isHexChar c \<and> matchHex n cs)"

definition validatePubkey :: "string \<Rightarrow> bool" where
  "validatePubkey pubkey =
     (case npubToHex pubkey of Inl e \<Rightarrow> False | Inr hex \<Rightarrow> matchHex 64 hex)"

definition normalizeKey :: "string \<Rightarrow> error + string" where
  "normalizeKey key = npubToHex key"

subsection \<open>note1ToHex\<close>

definition note1ToHex :: "string \<Rightarrow> error + string" where
  "note1ToHex note1 =
     (if \<not> startsWith note1 ''note1'' then Inl (Error ''Must start with note1'')
      else case decodeChars (slice note1 5 (- 6)) of
             Inl (Error msg) \<Rightarrow> Inl (Error (''Invalid note1 format: '' @ msg))
           | Inr decoded \<Rightarrow> Inr (bytesToHex (dropVersion (fiveToEight decoded 0 0 []))))"

section \<open>RelayManager\<close>

subsection \<open>Data\<close>

text \<open>
  A filter object is passed through to the relays; the fields are the ones the callers in
  this repository set, each absent or present.
\<close>

record filter =
  kinds :: "nat list option"
  authors :: "string list option"
  ids :: "string list option"
  limit :: "nat option"

text \<open>
  The third element of an inbound \<open>EVENT\<close> frame. The manager reads \<open>eventData.kind\<close>,
  \<open>eventData.pubkey.slice(0, 8)\<close> and (in \<open>fetchEvent\<close>) \<open>eventData.id\<close>. A field is
  \<open>None\<close> when it is missing; for \<open>pubkey\<close>, \<open>None\<close> is any value on which \<open>.slice\<close>
  raises a \<open>TypeError\<close>.
\<close>

record event =
  event_id :: "string option"
  pubkey :: "string option"
  kind :: "nat option"

text \<open>
  Callbacks. \<open>Callback k\<close> is the caller's function number \<open>k\<close>, which returns normally,
  \<open>Throwing k\<close> one that throws when it is called; what either does besides is outside the
  manager, so a call is recorded in the log \<open>calls\<close> and changes nothing else.
  \<open>OneTimeHandler eventId subscriptionId handler\<close> and \<open>FetchEose eventId subscriptionId\<close>
  are the two closures that \<open>fetchEvent\<close> builds.
\<close>

datatype handler = Callback nat | Throwing nat | OneTimeHandler string string handler

datatype eose_handler = EoseCallback nat | EoseThrowing nat | FetchEose string string

datatype call = Call nat event "string option" | EoseCall nat string

record subscription =
  filters :: filter
  handler :: handler
  onEOSE :: "eose_handler option"

datatype ready_state = CONNECTING | OPEN | CLOSING | CLOSED

datatype frame = REQ string filter | CLOSE string

text \<open>The functions given to \<open>setTimeout\<close>: the one of \<open>oneTimeHandler\<close> and the one of the
  \<open>onEOSE\<close> closure of \<open>fetchEvent\<close>.\<close>

datatype timer = UnsubscribeLater string | CleanupLater string string

text \<open>
  What \<open>JSON.parse(event.data)\<close> followed by the destructuring
  \<open>[type, subscriptionId, eventData] = message\<close> gives: \<open>Unparsable\<close> when either throws,
  otherwise the three elements. \<open>subscriptionId\<close> is \<open>None\<close> when the second element is
  not a string (such a value is no key of the maps, whose keys are strings);
  \<open>eventData\<close> is \<open>None\<close> when the third element is absent or falsy.
\<close>

datatype message = Unparsable | Message string "string option" "event option"

text \<open>
  The three fields of the class, and the world around it: the \<open>readyState\<close> of every socket
  (a socket is a number), the frames given to \<open>ws.send\<close>, the pending timeouts with the
  time they are due at, the clock in milliseconds, and the log of the calls of callbacks.
\<close>

record relay_manager =
  activeConnections :: "(string \<times> nat) list"
  eventHandlers :: "string \<rightharpoonup> handler list"
  subscriptions :: "string \<rightharpoonup> subscription"

record world = relay_manager +
  readyState :: "nat \<Rightarrow> ready_state"
  sent :: "(nat \<times> frame) list"
  timers :: "(nat \<times> timer) list"
  now :: nat
  calls :: "call list"

text \<open>The constructor, in a world where nothing has happened yet.\<close>

definition constructor :: world where
  "constructor =
     \<lparr>activeConnections = [], eventHandlers = Map.empty, subscriptions = Map.empty,
      readyState = (\<lambda>ws. CONNECTING), sent = [], timers = [], now = 0, calls = []\<rparr>"

subsection \<open>Sending, subscribe and unsubscribe\<close>

text \<open>\<open>this.activeConnections.forEach(({ ws }) => { if (ws.readyState === WebSocket.OPEN)
  ws.send(message); })\<close>\<close>

definition sendToOpen :: "frame \<Rightarrow> world \<Rightarrow> world" where
  "sendToOpen fr w =
     foldl (\<lambda>w (url, ws). if readyState w ws = OPEN then w\<lparr>sent := sent w @ [(ws, fr)]\<rparr> else w)
       w (activeConnections w)"

definition subscribe :: "string \<Rightarrow> filter \<Rightarrow> handler \<Rightarrow> eose_handler option \<Rightarrow> world \<Rightarrow> world" where
  "subscribe subscriptionId fs eventHandler eose w =
     (let w = w\<lparr>subscriptions := (subscriptions w)(subscriptionId \<mapsto>
                  \<lparr>filters = fs, handler = eventHandler, onEOSE = eose\<rparr>)\<rparr>;
          w = (if eventHandlers w subscriptionId = None
               then w\<lparr>eventHandlers := (eventHandlers w)(subscriptionId \<mapsto> [])\<rparr> else w);
          w = w\<lparr>eventHandlers := (eventHandlers w)(subscriptionId \<mapsto>
                  the (eventHandlers w subscriptionId) @ [eventHandler])\<rparr>
      in sendToOpen (REQ subscriptionId fs) w)"

definition unsubscribe :: "string \<Rightarrow> world \<Rightarrow> world" where
  "unsubscribe subscriptionId w =
     (let w = w\<lparr>eventHandlers := (eventHandlers w)(subscriptionId := None)\<rparr>;
          w = w\<lparr>subscriptions := (subscriptions w)(subscriptionId := None)\<rparr>
      in sendToOpen (CLOSE subscriptionId) w)"

definition removeConnection :: "nat \<Rightarrow> 'a world_scheme \<Rightarrow> 'a world_scheme" where
  "removeConnection ws w =
     w\<lparr>activeConnections := filter (\<lambda>conn. snd conn \<noteq> ws) (activeConnections w)\<rparr>"

text \<open>\<open>ws.close()\<close> on an open socket starts the closing handshake.\<close>

definition closeAllConnections :: "world \<Rightarrow> world" where
  "closeAllConnections w =
     (let w = foldl (\<lambda>w (url, ws). if readyState w ws = OPEN
                                    then w\<lparr>readyState := (readyState w)(ws := CLOSING)\<rparr> else w)
                w (activeConnections w)
      in w\<lparr>activeConnections := [], eventHandlers := Map.empty, subscriptions := Map.empty\<rparr>)"


subsection \<open>Timeouts\<close>

definition setTimeout :: "timer \<Rightarrow> nat \<Rightarrow> world \<Rightarrow> world" where
  "setTimeout f ms w = w\<lparr>timers := timers w @ [(now w + ms, f)]\<rparr>"

fun fireTimer :: "timer \<Rightarrow> world \<Rightarrow> world" where
  "fireTimer (UnsubscribeLater subscriptionId) w = unsubscribe subscriptionId w"
| "fireTimer (CleanupLater eventId subscriptionId) w =
     (if subscriptions w subscriptionId \<noteq> None then unsubscribe subscriptionId w else w)"

text \<open>
  \<open>ms\<close> milliseconds pass: the timeouts due by then run, the earliest first, and among
  those due at the same time the one set first. (No function given to \<open>setTimeout\<close> in this
  class sets a timeout.)
\<close>

definition elapse :: "nat \<Rightarrow> world \<Rightarrow> world" where
  "elapse ms w =
     (let deadline = now w + ms;
          due = sort_key fst (filter (\<lambda>t. fst t \<le> deadline) (timers w));
          w = w\<lparr>timers := filter (\<lambda>t. \<not> fst t \<le> deadline) (timers w), now := deadline\<rparr>
      in foldl (\<lambda>w t. fireTimer (snd t) w) w due)"

subsection \<open>Dispatch\<close>

text \<open>
  A call of a handler gives the world after it and whether the call threw.
  \<open>oneTimeHandler\<close>: \<open>if (eventData.id === eventId) { handler(eventData);
  setTimeout(() => this.unsubscribe(subscriptionId), 1000); }\<close>
\<close>

fun callHandler :: "handler \<Rightarrow> event \<Rightarrow> string option \<Rightarrow> world \<Rightarrow> world \<times> bool" where
  "callHandler (Callback k) e url w = (w\<lparr>calls := calls w @ [Call k e url]\<rparr>, False)"
| "callHandler (Throwing k) e url w = (w\<lparr>calls := calls w @ [Call k e url]\<rparr>, True)"
| "callHandler (OneTimeHandler eventId subscriptionId h) e url w =
     (if event_id e = Some eventId
      then (case callHandler h e None w of
              (w, True) \<Rightarrow> (w, True)
            | (w, False) \<Rightarrow> (setTimeout (UnsubscribeLater subscriptionId) 1000 w, False))
      else (w, False))"

text \<open>
  \<open>handleEvent\<close>: the template string of the first statement reads
  \<open>eventData.pubkey.slice(0, 8)\<close>, which throws when \<open>pubkey\<close> has no \<open>slice\<close>; then every
  handler of the list is called inside \<open>try\<close>/\<open>catch\<close>, so a throw is dropped there.
\<close>

definition forEachHandler :: "handler list \<Rightarrow> event \<Rightarrow> string \<Rightarrow> world \<Rightarrow> world" where
  "forEachHandler handlers eventData relayUrl w =
     foldl (\<lambda>w h. fst (callHandler h eventData (Some relayUrl) w)) w handlers"

definition handleEvent :: "string \<Rightarrow> string option \<Rightarrow> event \<Rightarrow> world \<Rightarrow> error + world" where
  "handleEvent relayUrl subscriptionId eventData w =
     (case pubkey eventData of
        None \<Rightarrow> Inl (Error ''TypeError'')
      | Some pk \<Rightarrow>
          (case (case subscriptionId of None \<Rightarrow> None | Some s \<Rightarrow> eventHandlers w s) of
             None \<Rightarrow> Inr w
           | Some handlers \<Rightarrow> Inr (forEachHandler handlers eventData relayUrl w)))"

text \<open>The end-of-stored-events callback is called outside any \<open>try\<close> of its own; the
  result is the world after the call and whether it threw.\<close>

fun callEose :: "eose_handler \<Rightarrow> string \<Rightarrow> world \<Rightarrow> world \<times> bool" where
  "callEose (EoseCallback k) relayUrl w = (w\<lparr>calls := calls w @ [EoseCall k relayUrl]\<rparr>, False)"
| "callEose (EoseThrowing k) relayUrl w = (w\<lparr>calls := calls w @ [EoseCall k relayUrl]\<rparr>, True)"
| "callEose (FetchEose eventId subscriptionId) relayUrl w =
     (setTimeout (CleanupLater eventId subscriptionId) 2000 w, False)"

definition handleEndOfStoredEvents :: "string \<Rightarrow> string option \<Rightarrow> world \<Rightarrow> world \<times> bool" where
  "handleEndOfStoredEvents relayUrl subscriptionId w =
     (case (case subscriptionId of None \<Rightarrow> None | Some s \<Rightarrow> subscriptions w s) of
        None \<Rightarrow> (w, False)
      | Some subscription \<Rightarrow>
          (case onEOSE subscription of None \<Rightarrow> (w, False) | Some f \<Rightarrow> callEose f relayUrl w))"

text \<open>\<open>handleRelayMessage\<close>: whatever is thrown inside is caught and logged.\<close>

definition handleRelayMessage :: "string \<Rightarrow> message \<Rightarrow> world \<Rightarrow> world" where
  "handleRelayMessage relayUrl m w =
     (case m of
        Unparsable \<Rightarrow> w
      | Message type subscriptionId eventData \<Rightarrow>
          if type = ''EVENT'' \<and> eventData \<noteq> None then
            (case handleEvent relayUrl subscriptionId (the eventData) w of
               Inl e \<Rightarrow> w | Inr w' \<Rightarrow> w')
          else if type = ''EOSE'' then fst (handleEndOfStoredEvents relayUrl subscriptionId w)
          else w)"

subsection \<open>fetchEvent\<close>

definition fetchEvent :: "string \<Rightarrow> handler \<Rightarrow> world \<Rightarrow> world" where
  "fetchEvent eventId h w =
     (let subscriptionId = ''event_'' @ slice eventId 0 8;
          eventFilters = \<lparr>kinds = None, authors = None, ids = Some [eventId], limit = Some 1\<rparr>
      in subscribe subscriptionId eventFilters (OneTimeHandler eventId subscriptionId h)
           (Some (FetchEose eventId subscriptionId)) w)"

subsection \<open>Executions\<close>

text \<open>
  What can happen to a manager, one thing at a time (the event loop runs one task to
  completion before the next): a call by the user interface, a frame from a relay, the
  close event of a socket, or time passing.
\<close>

datatype action =
    Subscribe string filter handler "eose_handler option"
  | Unsubscribe string
  | FetchEvent string handler
  | Inbound string message
  | SocketClosed nat
  | CloseAll
  | Elapse nat

fun perform :: "world \<Rightarrow> action \<Rightarrow> world" where
  "perform w (Subscribe subscriptionId fs h eose) = subscribe subscriptionId fs h eose w"
| "perform w (Unsubscribe subscriptionId) = unsubscribe subscriptionId w"
| "perform w (FetchEvent eventId h) = fetchEvent eventId h w"
| "perform w (Inbound relayUrl m) = handleRelayMessage relayUrl m w"
| "perform w (SocketClosed ws) = removeConnection ws (w\<lparr>readyState := (readyState w)(ws := CLOSED)\<rparr>)"
| "perform w CloseAll = closeAllConnections w"
| "perform w (Elapse ms) = elapse ms w"

definition run :: "action list \<Rightarrow> world \<Rightarrow> world" where
  "run acts w = foldl perform w acts"

text \<open>The subscription id an action registers, if it registers one.\<close>

fun registers :: "action \<Rightarrow> string option" where
  "registers (Subscribe subscriptionId fs h eose) = Some subscriptionId"
| "registers (FetchEvent eventId h) = Some (''event_'' @ slice eventId 0 8)"
| "registers a = None"

text \<open>The time that passes in an execution.\<close>

fun elapsed :: "action list \<Rightarrow> nat" where
  "elapsed [] = 0"
| "elapsed (Elapse ms # acts) = ms + elapsed acts"
| "elapsed (a # acts) = elapsed acts"

text \<open>The state of a fetch after an end-of-stored-events frame: its cleanup timeout is
  pending and due at \<open>d\<close>, or its subscription is gone.\<close>

definition cleanupPending :: "string \<Rightarrow> string \<Rightarrow> nat \<Rightarrow> world \<Rightarrow> bool" where
  "cleanupPending eid sid d w \<longleftrightarrow>
     subscriptions w sid = None \<or> ((d, CleanupLater eid sid) \<in> set (timers w) \<and> now w < d)"


subsection \<open>Positional notation\<close>

text \<open>
  The two repacking loops are stated against numbers: \<open>fromDigits b ds\<close> is the number
  whose digits in base \<open>b\<close> are \<open>ds\<close>, most significant first, and \<open>digits b n x\<close> are the
  last \<open>n\<close> digits of \<open>x\<close> in base \<open>b\<close>.
\<close>

definition fromDigits :: "nat \<Rightarrow> nat list \<Rightarrow> nat" where
  "fromDigits b ds = foldl (\<lambda>a d. a * b + d) 0 ds"

fun digits :: "nat \<Rightarrow> nat \<Rightarrow> nat \<Rightarrow> nat list" where
  "digits b 0 x = []"
| "digits b (Suc n) x = digits b n (x div b) @ [x mod b]"

subsection \<open>connectToRelay and connectToRelays\<close>

text \<open>
  One attempt of \<open>connectToRelays\<close> is one call of \<open>connectToRelay\<close>: its url, its socket,
  the variable \<open>resolved\<close>, whether the five-second timeout is still set (neither cleared
  nor fired), and the state of the promise that \<open>connectToRelay\<close> returns.
\<close>

datatype promise = Pending | Fulfilled | Rejected

record attempt =
  relay :: string
  socket :: nat
  resolved :: bool
  timeoutSet :: bool
  promise :: promise

record pool = world +
  attempts :: "attempt list"

text \<open>
  \<open>connectToRelays\<close> calls \<open>connectToRelay\<close> for every url in turn; each call makes a new
  socket (the sockets are numbered from \<open>first\<close>, a number not in use) and sets its timeout.
  Everything else happens later, in the handlers.
\<close>

definition connectToRelays :: "string list \<Rightarrow> nat \<Rightarrow> world \<Rightarrow> pool" where
  "connectToRelays relayUrls first w =
     \<lparr>activeConnections = activeConnections w, eventHandlers = eventHandlers w,
      subscriptions = subscriptions w,
      readyState = (\<lambda>s. if first \<le> s \<and> s < first + length relayUrls then CONNECTING
                          else readyState w s),
      sent = sent w, timers = timers w, now = now w, calls = calls w,
      attempts = map (\<lambda>(i, url). \<lparr>relay = url, socket = first + i, resolved = False,
                                    timeoutSet = True, promise = Pending\<rparr>)
                   (enumerate 0 relayUrls)\<rparr>"

text \<open>
  \<open>resolve(ws)\<close> and \<open>reject(error)\<close> settle a pending promise and do nothing to a settled
  one. The code after \<open>await\<close> in \<open>connectToRelays\<close> runs when the promise is settled,
  before any other event: on fulfilment it pushes the connection.
\<close>

definition resolve :: "nat \<Rightarrow> pool \<Rightarrow> pool" where
  "resolve k p =
     (let a = attempts p ! k in
      if promise a = Pending
      then p\<lparr>attempts := (attempts p)[k := a\<lparr>promise := Fulfilled\<rparr>],
              activeConnections := activeConnections p @ [(relay a, socket a)]\<rparr>
      else p)"

definition reject :: "nat \<Rightarrow> pool \<Rightarrow> pool" where
  "reject k p =
     (let a = attempts p ! k in
      if promise a = Pending then p\<lparr>attempts := (attempts p)[k := a\<lparr>promise := Rejected\<rparr>]\<rparr>
      else p)"

text \<open>The timeout function: \<open>if (!resolved) reject(new Error('Connection timeout'))\<close>.\<close>

definition timeoutFires :: "nat \<Rightarrow> pool \<Rightarrow> pool" where
  "timeoutFires k p =
     (let a = attempts p ! k in
      if timeoutSet a
      then (let p = p\<lparr>attempts := (attempts p)[k := a\<lparr>timeoutSet := False\<rparr>]\<rparr>
            in if \<not> resolved a then reject k p else p)
      else p)"

text \<open>\<open>ws.onopen\<close>: \<open>clearTimeout(timeout); resolved = true; resolve(ws)\<close>. The socket is
  open when the event fires.\<close>

definition onopen :: "nat \<Rightarrow> pool \<Rightarrow> pool" where
  "onopen k p =
     (let a = attempts p ! k;
          p = p\<lparr>readyState := (readyState p)(socket a := OPEN)\<rparr>;
          p = p\<lparr>attempts := (attempts p)[k := a\<lparr>timeoutSet := False, resolved := True\<rparr>]\<rparr>
      in resolve k p)"

text \<open>\<open>ws.onerror\<close>: \<open>clearTimeout(timeout); if (!resolved) { resolved = true;
  reject(error); }\<close>\<close>

definition onerror :: "nat \<Rightarrow> pool \<Rightarrow> pool" where
  "onerror k p =
     (let a = attempts p ! k;
          p = p\<lparr>attempts := (attempts p)[k := a\<lparr>timeoutSet := False\<rparr>]\<rparr>
      in if \<not> resolved a
         then reject k (p\<lparr>attempts := (attempts p)[k := (attempts p ! k)\<lparr>resolved := True\<rparr>]\<rparr>)
         else p)"

text \<open>\<open>ws.onclose\<close>: \<open>this.removeConnection(ws)\<close>. The socket is closed when the event fires.\<close>

definition onclose :: "nat \<Rightarrow> pool \<Rightarrow> pool" where
  "onclose k p =
     (let a = attempts p ! k
      in removeConnection (socket a) (p\<lparr>readyState := (readyState p)(socket a := CLOSED)\<rparr>))"

text \<open>What happens to the sockets of the attempts, one event at a time; the number is the
  position of the attempt in the list of urls.\<close>

datatype socket_event = OnOpen nat | OnError nat | OnClose nat | OnTimeout nat

fun socketEvent :: "pool \<Rightarrow> socket_event \<Rightarrow> pool" where
  "socketEvent p (OnOpen k) = (if k < length (attempts p) then onopen k p else p)"
| "socketEvent p (OnError k) = (if k < length (attempts p) then onerror k p else p)"
| "socketEvent p (OnClose k) = (if k < length (attempts p) then onclose k p else p)"
| "socketEvent p (OnTimeout k) = (if k < length (attempts p) then timeoutFires k p else p)"




text \<open>
  The outcome of attempt \<open>k\<close> as the specification has it: each attempt on its own
  succeeds, times out or errors, by whichever of its events comes first.
\<close>

fun outcomeOf :: "nat \<Rightarrow> socket_event list \<Rightarrow> promise" where
  "outcomeOf k [] = Pending"
| "outcomeOf k (OnOpen j # evs) = (if j = k then Fulfilled else outcomeOf k evs)"
| "outcomeOf k (OnError j # evs) = (if j = k then Rejected else outcomeOf k evs)"
| "outcomeOf k (OnTimeout j # evs) = (if j = k then Rejected else outcomeOf k evs)"
| "outcomeOf k (OnClose j # evs) = outcomeOf k evs"

text \<open>What one event does to the attempt it belongs to, for the statements about a single
  attempt; \<open>target\<close> is the position of that attempt.\<close>

fun after :: "socket_event \<Rightarrow> attempt \<Rightarrow> attempt" where
  "after (OnOpen k) a =
     a\<lparr>timeoutSet := False, resolved := True,
       promise := (if promise a = Pending then Fulfilled else promise a)\<rparr>"
| "after (OnError k) a =
     (if resolved a then a\<lparr>timeoutSet := False\<rparr>
      else a\<lparr>timeoutSet := False, resolved := True,
             promise := (if promise a = Pending then Rejected else promise a)\<rparr>)"
| "after (OnClose k) a = a"
| "after (OnTimeout k) a =
     (if timeoutSet a
      then (if resolved a then a\<lparr>timeoutSet := False\<rparr>
            else a\<lparr>timeoutSet := False,
                   promise := (if promise a = Pending then Rejected else promise a)\<rparr>)
      else a)"

fun target :: "socket_event \<Rightarrow> nat" where
  "target (OnOpen k) = k"
| "target (OnError k) = k"
| "target (OnClose k) = k"
| "target (OnTimeout k) = k"


section \<open>The codec: normalisation and validity\<close>

lemma hexDigit_lower: "d < 16 \<Longrightarrow> hexDigit d \<in> lowerHex"
  unfolding hexDigit_def lowerHex_def by (rule nth_mem) simp

lemma zero_lower: "CHR ''0'' \<in> lowerHex"
  by (simp add: lowerHex_def)

lemma n_not_lower: "CHR ''n'' \<notin> lowerHex"
  by (simp add: lowerHex_def)

lemma toString16_chars: "set (toString16 n) \<subseteq> lowerHex"
proof (induction n rule: toString16.induct)
  case (1 n)
  show ?case
  proof (cases "n < 16")
    case True
    then show ?thesis using hexDigit_lower [of n] by (subst toString16.simps) simp
  next
    case False
    have "n mod 16 < 16" by simp
    with False 1 hexDigit_lower [of "n mod 16"] show ?thesis
      by (subst toString16.simps) simp
  qed
qed

lemma padStart_chars: "set (padStart s n) \<subseteq> insert CHR ''0'' (set s)"
  by (auto simp add: padStart_def)

lemma padStart_length: "length (padStart s n) = max n (length s)"
  by (simp add: padStart_def)

lemma padStart_lower: "set s \<subseteq> lowerHex \<Longrightarrow> set (padStart s n) \<subseteq> lowerHex"
  using padStart_chars [of s n] zero_lower by auto

lemma bytesToHex_chars: "set (bytesToHex bytes) \<subseteq> lowerHex"
  by (auto simp add: bytesToHex_def dest: subsetD [OF padStart_lower [OF toString16_chars]])

lemma hex_output_no_prefix:
  assumes "set h \<subseteq> lowerHex"
  shows "\<not> startsWith h ''npub''"
proof
  assume "startsWith h ''npub''"
  then obtain t where "h = CHR ''n'' # t"
    by (cases h) (auto simp add: startsWith_def)
  with assms n_not_lower show False by auto
qed

lemma npubToHex_chars:
  assumes "startsWith x ''npub''" and "npubToHex x = Inr h"
  shows "set h \<subseteq> lowerHex"
proof -
  from assms obtain bytes where "h = padStart (bytesToHex bytes) 64"
    by (auto simp add: npubToHex_def split: sum.splits error.splits)
  with padStart_lower [OF bytesToHex_chars] show ?thesis by simp
qed

text \<open>
  Claim C7. \<open>normalizeKey\<close> is idempotent: whenever the normalisation of an input succeeds,
  its result does not begin with the prefix \<open>npub\<close>, and normalising the result gives the
  result again.
\<close>

theorem normalizeKey_idempotent:
  assumes "normalizeKey x = Inr h"
  shows "\<not> startsWith h ''npub'' \<and> normalizeKey h = Inr h"
proof -
  have "\<not> startsWith h ''npub''"
  proof (cases "startsWith x ''npub''")
    case True
    from assms have "npubToHex x = Inr h" by (simp add: normalizeKey_def)
    with True have "set h \<subseteq> lowerHex" by (rule npubToHex_chars)
    then show ?thesis by (rule hex_output_no_prefix)
  next
    case False
    with assms show ?thesis by (simp add: normalizeKey_def npubToHex_def)
  qed
  then show ?thesis by (simp add: normalizeKey_def npubToHex_def)
qed

lemma matchHex_iff: "matchHex n s \<longleftrightarrow> length s = n \<and> (\<forall>c \<in> set s. isHexChar c)"
  by (induction n s rule: matchHex.induct) auto

lemma isHexChar_iff: "isHexChar c \<longleftrightarrow> c \<in> set ''0123456789abcdefABCDEF''"
proof
  assume "c \<in> set ''0123456789abcdefABCDEF''"
  then show "isHexChar c" by (auto simp add: isHexChar_def)
next
  assume h: "isHexChar c"
  define k where "k = (of_char c :: nat)"
  from h have "48 \<le> k \<and> k \<le> 57 \<or> 97 \<le> k \<and> k \<le> 102 \<or> 65 \<le> k \<and> k \<le> 70"
    by (simp add: isHexChar_def Let_def k_def)
  then have "k = 48 \<or> k = 49 \<or> k = 50 \<or> k = 51 \<or> k = 52 \<or> k = 53 \<or> k = 54 \<or> k = 55
      \<or> k = 56 \<or> k = 57 \<or> k = 97 \<or> k = 98 \<or> k = 99 \<or> k = 100 \<or> k = 101 \<or> k = 102
      \<or> k = 65 \<or> k = 66 \<or> k = 67 \<or> k = 68 \<or> k = 69 \<or> k = 70"
    by arith
  then have "(of_char c :: nat) \<in> of_char ` set ''0123456789abcdefABCDEF''"
    unfolding k_def by (elim disjE) simp_all
  then obtain d where "d \<in> set ''0123456789abcdefABCDEF''" and "(of_char c :: nat) = of_char d"
    by blast
  then show "c \<in> set ''0123456789abcdefABCDEF''" by (simp only: of_char_eq_iff)
qed


text \<open>
  Claim C6. For every string, \<open>validatePubkey\<close> is true exactly when the normalisation
  succeeds with a string of exactly 64 characters, each a hexadecimal digit in either
  case; when the normalisation throws, \<open>validatePubkey\<close> is false and nothing propagates
  (the result is a plain truth value).
\<close>

theorem validatePubkey_iff:
  "(validatePubkey s \<longleftrightarrow>
      (\<exists>h. normalizeKey s = Inr h \<and> length h = 64 \<and> set h \<subseteq> set ''0123456789abcdefABCDEF''))
   \<and> (\<forall>e. normalizeKey s = Inl e \<longrightarrow> \<not> validatePubkey s)"
proof -
  have "matchHex 64 h \<longleftrightarrow> length h = 64 \<and> set h \<subseteq> set ''0123456789abcdefABCDEF''" for h
    unfolding matchHex_iff using isHexChar_iff by blast
  then show ?thesis
    by (cases "npubToHex s") (simp_all add: validatePubkey_def normalizeKey_def)
qed

theorem validatePubkey_iff_witness:
  "validatePubkey ''npub1qqqqqqqqqqqqqqqqqqqqqqqqqqqqqqqqqqqqqqqqqqqqqqqqqqqqqyz0laq''
   \<and> \<not> validatePubkey ''npub1invalid''
   \<and> normalizeKey ''npub1invalid'' = Inl (Error ''Invalid npub format: Invalid character: i'')"
proof -
  have 1: "normalizeKey ''npub1qqqqqqqqqqqqqqqqqqqqqqqqqqqqqqqqqqqqqqqqqqqqqqqqqqqqqyz0laq''
             = Inr ''0000000000000000000000000000000000000000000000000000000000000000''"
    by code_simp
  have 2: "normalizeKey ''npub1invalid'' = Inl (Error ''Invalid npub format: Invalid character: i'')"
    by code_simp
  from validatePubkey_iff [of "''npub1qqqqqqqqqqqqqqqqqqqqqqqqqqqqqqqqqqqqqqqqqqqqqqqqqqqqqyz0laq''"] 1
  have "validatePubkey ''npub1qqqqqqqqqqqqqqqqqqqqqqqqqqqqqqqqqqqqqqqqqqqqqqqqqqqqqyz0laq''"
    by simp
  moreover from validatePubkey_iff [of "''npub1invalid''"] 2
  have "\<not> validatePubkey ''npub1invalid''" by simp
  ultimately show ?thesis using 2 by simp
qed

theorem normalizeKey_idempotent_witness:
  "normalizeKey ''npub1qzprg8ug9dh2hnft5lc7ly92m9su7p6279deaaz2p8ua928ml0n2y25khvz''
     = Inr ''82341f882b6eabcd2ba7f1ef90aad961cf074af15b9ef44a09f9d2a8fbfbe6a2''
   \<and> normalizeKey ''82341f882b6eabcd2ba7f1ef90aad961cf074af15b9ef44a09f9d2a8fbfbe6a2''
     = Inr ''82341f882b6eabcd2ba7f1ef90aad961cf074af15b9ef44a09f9d2a8fbfbe6a2''"
proof -
  have 1: "normalizeKey ''npub1qzprg8ug9dh2hnft5lc7ly92m9su7p6279deaaz2p8ua928ml0n2y25khvz''
     = Inr ''82341f882b6eabcd2ba7f1ef90aad961cf074af15b9ef44a09f9d2a8fbfbe6a2''"
    by code_simp
  from normalizeKey_idempotent [OF 1] 1 show ?thesis by simp
qed

section \<open>Evaluating the encoder\<close>










section \<open>The decoders and a changed character\<close>

lemma indexOf_None_iff: "indexOf xs c = None \<longleftrightarrow> c \<notin> set xs"
  by (induction xs) (auto split: option.splits)

lemma decodeChars_ok_iff: "(\<exists>vs. decodeChars cs = Inr vs) \<longleftrightarrow> set cs \<subseteq> set BECH32_CHARSET"
proof (induction cs)
  case (Cons c cs)
  show ?case
  proof (cases "indexOf BECH32_CHARSET c")
    case None
    then show ?thesis by (simp add: indexOf_None_iff [symmetric])
  next
    case (Some v)
    then have "c \<in> set BECH32_CHARSET"
      using indexOf_None_iff [of BECH32_CHARSET c] by simp
    with Some Cons show ?thesis by (cases "decodeChars cs") auto
  qed
qed simp

lemma decodeChars_fails_iff: "(\<exists>e. decodeChars cs = Inl e) \<longleftrightarrow> \<not> set cs \<subseteq> set BECH32_CHARSET"
  using decodeChars_ok_iff [of cs] by (cases "decodeChars cs") auto

lemma slice_body: "slice s 5 (- 6) = take (length s - 11) (drop 5 s)"
proof -
  have "nat (int n - 11) = n - 11" for n by arith
  then show ?thesis by (auto simp add: slice_def Let_def min_def max_def)
qed


















section \<open>Repacking between bytes and five-bit groups\<close>

lemma fromDigits_Nil [simp]: "fromDigits b [] = 0"
  by (simp add: fromDigits_def)

lemma fromDigits_snoc: "fromDigits b (ds @ [d]) = fromDigits b ds * b + d"
  by (simp add: fromDigits_def)

lemma digits_length [simp]: "length (digits b n x) = n"
  by (induction n arbitrary: x) simp_all

lemma digits_bound: "0 < b \<Longrightarrow> d \<in> set (digits b n x) \<Longrightarrow> d < b"
  by (induction n arbitrary: x) auto

lemma digits_fromDigits:
  "length ds = n \<Longrightarrow> \<forall>d \<in> set ds. d < b \<Longrightarrow> digits b n (fromDigits b ds) = ds"
proof (induction ds arbitrary: n rule: rev_induct)
  case Nil
  then show ?case by simp
next
  case (snoc d ds)
  then obtain m where n: "n = Suc m" and m: "length ds = m" by (cases n) auto
  from snoc.prems have d: "d < b" and ds: "\<forall>d \<in> set ds. d < b" by simp_all
  then have "(fromDigits b ds * b + d) div b = fromDigits b ds" and "(fromDigits b ds * b + d) mod b = d"
    by simp_all
  with snoc.IH [OF m ds] show ?case unfolding n fromDigits_snoc by simp
qed

lemma fromDigits_digits: "fromDigits b (digits b n x) = x mod b ^ n"
proof (induction n arbitrary: x)
  case 0
  then show ?case by simp
next
  case (Suc n)
  have "fromDigits b (digits b (Suc n) x) = fromDigits b (digits b n (x div b)) * b + x mod b"
    unfolding digits.simps fromDigits_snoc ..
  also have "\<dots> = (x div b) mod b ^ n * b + x mod b" by (simp only: Suc)
  also have "\<dots> = x mod b ^ Suc n"
    by (simp add: mod_mult2_eq mult.commute)
  finally show ?case .
qed

lemma fromDigits_less:
  "\<forall>d \<in> set ds. d < b \<Longrightarrow> fromDigits b ds < b ^ length ds"
proof (induction ds rule: rev_induct)
  case Nil
  then show ?case by simp
next
  case (snoc d ds)
  then have "fromDigits b ds < b ^ length ds" and "d < b" by simp_all
  then have "fromDigits b ds * b + d < (fromDigits b ds + 1) * b" by simp
  also have "\<dots> \<le> b ^ length ds * b"
    using \<open>fromDigits b ds < b ^ length ds\<close> by (intro mult_le_mono1) simp
  finally show ?case unfolding fromDigits_snoc by (simp add: mult.commute)
qed

lemma fromDigits_zero_Cons: "fromDigits b (0 # ds) = fromDigits b ds"
  by (simp add: fromDigits_def)

lemma or_low_bits:
  fixes V v :: nat
  assumes "v < 2 ^ n"
  shows "push_bit n V OR v = V * 2 ^ n + v"
proof -
  from assms have v: "take_bit n v = v" by (simp add: take_bit_eq_mod)
  have "push_bit n V AND take_bit n v = 0"
    by (simp add: bit_eq_iff bit_simps)
  then have "push_bit n V + take_bit n v = push_bit n V OR take_bit n v"
    by (rule disjunctive_add_eq_or)
  then show ?thesis by (simp add: v push_bit_eq_mult)
qed

lemma word_or_low_bits:
  assumes "v < 2 ^ n"
  shows "push_bit n (word_of_nat V :: 32 word) OR word_of_nat v = word_of_nat (V * 2 ^ n + v)"
proof -
  have "push_bit n (word_of_nat V :: 32 word) OR word_of_nat v = word_of_nat (push_bit n V OR v)"
    by (simp add: of_nat_or_eq of_nat_push_bit)
  with or_low_bits [OF assms] show ?thesis by simp
qed

lemma nat_field:
  fixes V :: nat
  assumes "k + n \<le> 32"
  shows "take_bit n (drop_bit k (take_bit 32 V)) = (V div 2 ^ k) mod 2 ^ n"
proof -
  from assms have "min n (32 - k) = n" by simp
  then show ?thesis
    by (simp add: drop_bit_take_bit take_bit_eq_mod [symmetric] drop_bit_eq_div [symmetric])
qed

lemma word_field:
  assumes "k + n \<le> 32"
  shows "unat (drop_bit k (word_of_nat V :: 32 word) AND mask n) = (V div 2 ^ k) mod 2 ^ n"
proof -
  have "unat (drop_bit k (word_of_nat V :: 32 word) AND mask n)
          = take_bit n (drop_bit k (take_bit 32 V))"
    by (simp add: take_bit_eq_mask [symmetric] unsigned_take_bit_eq unsigned_drop_bit_eq unsigned_of_nat)
  with nat_field [OF assms] show ?thesis by simp
qed

lemma word_field_255:
  "k + 8 \<le> 32 \<Longrightarrow> unat (drop_bit k (word_of_nat V :: 32 word) AND 0xff) = (V div 2 ^ k) mod 256"
  using word_field [of k 8 V] by (simp add: mask_eq_exp_minus_1)

lemma word_field_31:
  "k + 5 \<le> 32 \<Longrightarrow> unat (drop_bit k (word_of_nat V :: 32 word) AND 31) = (V div 2 ^ k) mod 32"
  using word_field [of k 5 V] by (simp add: mask_eq_exp_minus_1)

lemma word_pad_31:
  "unat (push_bit k (word_of_nat V :: 32 word) AND 31) = (V * 2 ^ k) mod 32"
proof -
  have "push_bit k (word_of_nat V :: 32 word) = word_of_nat (V * 2 ^ k)"
    by (simp add: of_nat_push_bit [symmetric] push_bit_eq_mult)
  then have "unat (push_bit k (word_of_nat V :: 32 word) AND 31)
               = unat (drop_bit 0 (word_of_nat (V * 2 ^ k) :: 32 word) AND 31)"
    by simp
  also have "\<dots> = (V * 2 ^ k) mod 32" by (subst word_field_31) simp_all
  finally show ?thesis .
qed

lemma drain8_small: "bits < 8 \<Longrightarrow> drain8 acc bits out = (bits, out)"
  by (subst drain8.simps) simp

lemma drain8_once:
  "8 \<le> bits \<Longrightarrow> bits < 16 \<Longrightarrow>
   drain8 acc bits out = (bits - 8, out @ [unat (drop_bit (bits - 8) acc AND 0xff)])"
  by (subst drain8.simps) (simp add: drain8_small)

lemma shift_in:
  fixes V v :: nat
  assumes "v < 2 ^ n"
  shows "(V * 2 ^ n + v) div 2 ^ (b + n) = V div 2 ^ b"
proof -
  have "(2::nat) ^ (b + n) = 2 ^ n * 2 ^ b" by (simp add: power_add)
  then have "(V * 2 ^ n + v) div 2 ^ (b + n) = (V * 2 ^ n + v) div 2 ^ n div 2 ^ b"
    by (simp only: div_mult2_eq)
  also from assms have "(V * 2 ^ n + v) div 2 ^ n = V" by simp
  finally show ?thesis .
qed

lemma shift_out:
  fixes X :: nat
  shows "X div 2 ^ k div 2 ^ n = X div 2 ^ (k + n)"
proof -
  have "(2::nat) ^ (k + n) = 2 ^ k * 2 ^ n" by (simp add: power_add)
  then show ?thesis by (simp only: div_mult2_eq)
qed

lemma count_small:
  fixes t :: nat
  assumes "t mod m + k < m"
  shows "(t + k) mod m = t mod m + k" and "(t + k) div m = t div m"
proof -
  from assms have m: "m \<noteq> 0" by auto
  have e: "t + k = (t mod m + k) + t div m * m"
    using div_mult_mod_eq [of t m] by simp
  have "(t + k) mod m = (t mod m + k) mod m" unfolding e by (rule mod_mult_self1)
  with assms show "(t + k) mod m = t mod m + k" by simp
  have "(t + k) div m = t div m + (t mod m + k) div m"
    unfolding e using m by (rule div_mult_self1)
  with assms show "(t + k) div m = t div m" by simp
qed

lemma count_wrap:
  fixes t :: nat
  assumes "m \<le> t mod m + k" and "t mod m + k < m + m"
  shows "(t + k) mod m = t mod m + k - m" and "(t + k) div m = Suc (t div m)"
proof -
  from assms have m: "m \<noteq> 0" by auto
  from assms have e: "t + k = (t mod m + k - m) + Suc (t div m) * m"
    using div_mult_mod_eq [of t m] by simp
  from assms have r: "t mod m + k - m < m" by simp
  have "(t + k) mod m = (t mod m + k - m) mod m" unfolding e by (rule mod_mult_self1)
  with r show "(t + k) mod m = t mod m + k - m" by simp
  have "(t + k) div m = Suc (t div m) + (t mod m + k - m) div m"
    unfolding e using m by (rule div_mult_self1)
  with r show "(t + k) div m = Suc (t div m)" by simp
qed

lemma five_step:
  assumes "v < 32"
  shows "drain8 (push_bit 5 (word_of_nat V) OR word_of_nat v) (t mod 8 + 5)
           (digits 256 (t div 8) (V div 2 ^ (t mod 8)))
         = ((t + 5) mod 8, digits 256 ((t + 5) div 8) ((V * 32 + v) div 2 ^ ((t + 5) mod 8)))"
proof -
  define b where "b = t mod 8"
  define X where "X = V * 32 + v"
  have b8: "b < 8" by (simp add: b_def)
  from assms have acc: "push_bit 5 (word_of_nat V :: 32 word) OR word_of_nat v = word_of_nat X"
    using word_or_low_bits [of v 5 V] by (simp add: X_def)
  from assms have s: "X div 2 ^ (b + 5) = V div 2 ^ b"
    using shift_in [of v 5 V b] by (simp add: X_def)
  show ?thesis
  proof (cases "b < 3")
    case True
    then have "(t + 5) mod 8 = b + 5" and "(t + 5) div 8 = t div 8"
      unfolding b_def using count_small [of t 8 5] by simp_all
    moreover from True have "drain8 (word_of_nat X) (b + 5) (digits 256 (t div 8) (V div 2 ^ b))
        = (b + 5, digits 256 (t div 8) (V div 2 ^ b))"
      by (simp add: drain8_small)
    ultimately show ?thesis
      unfolding acc b_def [symmetric] X_def [symmetric] by (simp only: s)
  next
    case False
    with b8 have t: "(t + 5) mod 8 = b - 3" "(t + 5) div 8 = Suc (t div 8)"
      unfolding b_def using count_wrap [of 8 t 5] by simp_all
    from False b8 have r: "8 \<le> b + 5" "b + 5 < 16" "b + 5 - 8 = b - 3" "b - 3 + 8 = b + 5" "b - 3 + 8 \<le> 32"
      by simp_all
    have "X div 2 ^ (b - 3) div 2 ^ 8 = X div 2 ^ (b - 3 + 8)" by (rule shift_out)
    also from r have "b - 3 + 8 = b + 5" by simp
    finally have d: "X div 2 ^ (b - 3) div 256 = V div 2 ^ b" using s by simp
    have "drain8 (word_of_nat X) (b + 5) (digits 256 (t div 8) (V div 2 ^ b))
        = (b - 3, digits 256 (t div 8) (V div 2 ^ b) @ [X div 2 ^ (b - 3) mod 256])"
      using r by (simp add: drain8_once word_field_255)
    also have "digits 256 (t div 8) (V div 2 ^ b) @ [X div 2 ^ (b - 3) mod 256]
        = digits 256 (Suc (t div 8)) (X div 2 ^ (b - 3))"
      by (simp add: d)
    finally show ?thesis
      unfolding acc b_def [symmetric] X_def [symmetric] t .
  qed
qed

lemma fiveToEight_numeric:
  assumes "\<forall>v \<in> set vs. v < 32"
  shows "fiveToEight vs (word_of_nat V) (t mod 8) (digits 256 (t div 8) (V div 2 ^ (t mod 8)))
         = digits 256 ((t + 5 * length vs) div 8)
             (foldl (\<lambda>a d. a * 32 + d) V vs div 2 ^ ((t + 5 * length vs) mod 8))"
  using assms
proof (induction vs arbitrary: V t)
  case Nil
  then show ?case by simp
next
  case (Cons v vs)
  then have v: "v < 32" and vs: "\<forall>v \<in> set vs. v < 32" by simp_all
  have "t + 5 + 5 * length vs = t + 5 * length (v # vs)" by simp
  with Cons.IH [OF vs, of "V * 32 + v" "t + 5"] five_step [OF v, of V t]
  show ?case by (simp add: word_or_low_bits [of v 5 V, simplified] v)
qed

lemma fiveToEight_digits:
  assumes "\<forall>v \<in> set vs. v < 32"
  shows "fiveToEight vs 0 0 []
         = digits 256 (5 * length vs div 8) (fromDigits 32 vs div 2 ^ (5 * length vs mod 8))"
  using fiveToEight_numeric [OF assms, of 0 0] by (simp add: fromDigits_def)

lemma drain5_small: "bits < 5 \<Longrightarrow> drain5 acc bits out = (bits, out)"
  by (subst drain5.simps) simp

lemma drain5_once:
  "5 \<le> bits \<Longrightarrow> bits < 10 \<Longrightarrow>
   drain5 acc bits out = (bits - 5, out @ [unat (drop_bit (bits - 5) acc AND 31)])"
  by (subst drain5.simps) (simp add: drain5_small)

lemma drain5_twice:
  "10 \<le> bits \<Longrightarrow> bits < 15 \<Longrightarrow>
   drain5 acc bits out =
     (bits - 10, out @ [unat (drop_bit (bits - 5) acc AND 31), unat (drop_bit (bits - 10) acc AND 31)])"
  by (subst drain5.simps) (simp add: drain5_once)

lemma eight_step:
  assumes "v < 256"
  shows "drain5 (push_bit 8 (word_of_nat V) OR word_of_nat v) (t mod 5 + 8)
           (digits 32 (t div 5) (V div 2 ^ (t mod 5)))
         = ((t + 8) mod 5, digits 32 ((t + 8) div 5) ((V * 256 + v) div 2 ^ ((t + 8) mod 5)))"
proof -
  define b where "b = t mod 5"
  define X where "X = V * 256 + v"
  have b5: "b < 5" by (simp add: b_def)
  from assms have acc: "push_bit 8 (word_of_nat V :: 32 word) OR word_of_nat v = word_of_nat X"
    using word_or_low_bits [of v 8 V] by (simp add: X_def)
  from assms have s: "X div 2 ^ (b + 8) = V div 2 ^ b"
    using shift_in [of v 8 V b] by (simp add: X_def)
  have "X div 2 ^ (b + 3) div 2 ^ 5 = X div 2 ^ (b + 3 + 5)" by (rule shift_out)
  also have "b + 3 + 5 = b + 8" by simp
  finally have d1: "X div 2 ^ (b + 3) div 32 = V div 2 ^ b" using s by simp
  show ?thesis
  proof (cases "b < 2")
    case True
    then have t: "(t + 8) mod 5 = b + 3" "(t + 8) div 5 = Suc (t div 5)"
      unfolding b_def using count_wrap [of 5 t 8] by simp_all
    from True have r: "5 \<le> b + 8" "b + 8 < 10" "b + 8 - 5 = b + 3" "b + 3 + 5 \<le> 32"
      by simp_all
    have "drain5 (word_of_nat X) (b + 8) (digits 32 (t div 5) (V div 2 ^ b))
        = (b + 3, digits 32 (t div 5) (V div 2 ^ b) @ [X div 2 ^ (b + 3) mod 32])"
      using r by (simp add: drain5_once word_field_31 add.commute)
    also have "digits 32 (t div 5) (V div 2 ^ b) @ [X div 2 ^ (b + 3) mod 32]
        = digits 32 (Suc (t div 5)) (X div 2 ^ (b + 3))"
      by (simp add: d1)
    finally show ?thesis
      unfolding acc b_def [symmetric] X_def [symmetric] t .
  next
    case False
    with b5 have e: "t mod 5 + 8 = b - 2 + Suc (Suc (t div 5 - t div 5)) * 5" "b - 2 < 5"
      by (simp_all add: b_def)
    have tt: "t + 8 = (b - 2) + Suc (Suc (t div 5)) * 5"
      using False b5 div_mult_mod_eq [of t 5] by (simp add: b_def)
    have "(t + 8) mod 5 = (b - 2) mod 5" unfolding tt by (rule mod_mult_self1)
    with e have t1: "(t + 8) mod 5 = b - 2" by simp
    have "(t + 8) div 5 = Suc (Suc (t div 5)) + (b - 2) div 5"
      unfolding tt by (rule div_mult_self1) simp
    with e have t2: "(t + 8) div 5 = Suc (Suc (t div 5))" by simp
    from False b5 have r: "10 \<le> b + 8" "b + 8 < 15" "b + 8 - 5 = b + 3" "b + 8 - 10 = b - 2"
        "b + 3 + 5 \<le> 32" "b - 2 + 5 \<le> 32" "b - 2 + 5 = b + 3"
      by simp_all
    have "X div 2 ^ (b - 2) div 2 ^ 5 = X div 2 ^ (b - 2 + 5)" by (rule shift_out)
    also from r have "b - 2 + 5 = b + 3" by simp
    finally have d2: "X div 2 ^ (b - 2) div 32 = X div 2 ^ (b + 3)" by simp
    have "drain5 (word_of_nat X) (b + 8) (digits 32 (t div 5) (V div 2 ^ b))
        = (b - 2, digits 32 (t div 5) (V div 2 ^ b)
                    @ [X div 2 ^ (b + 3) mod 32, X div 2 ^ (b - 2) mod 32])"
      using r by (simp add: drain5_twice word_field_31 add.commute)
    also have "digits 32 (t div 5) (V div 2 ^ b) @ [X div 2 ^ (b + 3) mod 32, X div 2 ^ (b - 2) mod 32]
        = digits 32 (Suc (Suc (t div 5))) (X div 2 ^ (b - 2))"
      by (simp add: d1 d2)
    finally show ?thesis
      unfolding acc b_def [symmetric] X_def [symmetric] t1 t2 .
  qed
qed

lemma toInt32_byte: "toInt32 (Some (int b)) = word_of_nat b"
  by (simp add: toInt32_def)

lemma eightToFive_numeric:
  assumes "\<forall>b \<in> set bs. b < 256"
  shows "eightToFive (map (\<lambda>b. Some (int b)) bs) (word_of_nat V) (t mod 5)
           (digits 32 (t div 5) (V div 2 ^ (t mod 5)))
         = (let T = t + 8 * length bs; N = foldl (\<lambda>a d. a * 256 + d) V bs
            in if T mod 5 > 0
               then digits 32 (T div 5) (N div 2 ^ (T mod 5)) @ [(N * 2 ^ (5 - T mod 5)) mod 32]
               else digits 32 (T div 5) (N div 2 ^ (T mod 5)))"
  using assms
proof (induction bs arbitrary: V t)
  case Nil
  then show ?case by (simp add: word_pad_31)
next
  case (Cons v bs)
  then have v: "v < 256" and bs: "\<forall>b \<in> set bs. b < 256" by simp_all
  have "t + 8 + 8 * length bs = t + 8 * length (v # bs)" by simp
  with Cons.IH [OF bs, of "V * 256 + v" "t + 8"] eight_step [OF v, of V t]
  show ?case by (simp add: toInt32_byte word_or_low_bits [of v 8 V, simplified] v)
qed

lemma pad_digit:
  fixes N :: nat
  assumes "0 < r" and "r < 5"
  shows "digits 32 q (N div 2 ^ r) @ [(N * 2 ^ (5 - r)) mod 32] = digits 32 (Suc q) (N * 2 ^ (5 - r))"
proof -
  from assms have "(32::nat) = 2 ^ (5 - r) * 2 ^ r"
    by (simp add: power_add [symmetric])
  then have "N * 2 ^ (5 - r) div 32 = (2 ^ (5 - r) * N) div (2 ^ (5 - r) * 2 ^ r)"
    by (simp only: mult.commute)
  also have "\<dots> = N div 2 ^ r" by (rule div_mult_mult1) simp
  finally show ?thesis by simp
qed

lemma eightToFive_33:
  assumes "\<forall>b \<in> set bs. b < 256" and "length bs = 33"
  shows "eightToFive (map (\<lambda>b. Some (int b)) bs) 0 0 [] = digits 32 53 (fromDigits 256 bs * 2)"
proof -
  from assms(2) have T: "(0 + 8 * length bs) mod 5 = 4" "(0 + 8 * length bs) div 5 = 52" by simp_all
  from eightToFive_numeric [OF assms(1), of 0 0]
  have "eightToFive (map (\<lambda>b. Some (int b)) bs) 0 0 []
        = digits 32 52 (fromDigits 256 bs div 2 ^ 4) @ [(fromDigits 256 bs * 2 ^ (5 - 4)) mod 32]"
    unfolding Let_def T by (simp add: fromDigits_def)
  also have "\<dots> = digits 32 (Suc 52) (fromDigits 256 bs * 2 ^ (5 - 4))"
    by (rule pad_digit) simp_all
  finally show ?thesis by simp
qed

lemma lowerHex_cases:
  assumes "c \<in> lowerHex"
  shows "digitValue c \<noteq> None \<and> the (digitValue c) < 16 \<and> hexDigit (the (digitValue c)) = c
       \<and> \<not> isWhiteSpace c \<and> c \<noteq> CHR ''-'' \<and> c \<noteq> CHR ''+'' \<and> c \<noteq> CHR ''x'' \<and> c \<noteq> CHR ''X''"
proof -
  from assms have "c = CHR ''0'' \<or> c = CHR ''1'' \<or> c = CHR ''2'' \<or> c = CHR ''3'' \<or> c = CHR ''4''
      \<or> c = CHR ''5'' \<or> c = CHR ''6'' \<or> c = CHR ''7'' \<or> c = CHR ''8'' \<or> c = CHR ''9''
      \<or> c = CHR ''a'' \<or> c = CHR ''b'' \<or> c = CHR ''c'' \<or> c = CHR ''d'' \<or> c = CHR ''e''
      \<or> c = CHR ''f''"
    by (simp add: lowerHex_def)
  then show ?thesis
    by (elim disjE) (simp_all add: digitValue_def hexDigit_def isWhiteSpace_def)
qed

lemma parseInt16_pair:
  assumes "c \<in> lowerHex" and "d \<in> lowerHex"
  shows "parseInt16 [c, d] = Some (int (the (digitValue c) * 16 + the (digitValue d)))"
proof -
  from lowerHex_cases [OF assms(1)] obtain x where x: "digitValue c = Some x"
    and c: "\<not> isWhiteSpace c" "c \<noteq> CHR ''-''" "c \<noteq> CHR ''+''" by auto
  from lowerHex_cases [OF assms(2)] obtain y where y: "digitValue d = Some y"
    and d: "d \<noteq> CHR ''x''" "d \<noteq> CHR ''X''" by auto
  from c d x y show ?thesis
    by (simp add: parseInt16_def startsWith_def)
qed

lemma toString16_pair:
  assumes "x < 16" and "y < 16"
  shows "padStart (toString16 (x * 16 + y)) 2 = [hexDigit x, hexDigit y]"
proof (cases "x = 0")
  case True
  with assms have "toString16 (x * 16 + y) = [hexDigit y]"
    by (subst toString16.simps) simp
  with True show ?thesis by (simp add: padStart_def hexDigit_def)
next
  case False
  with assms have "\<not> x * 16 + y < 16" and "(x * 16 + y) div 16 = x" and "(x * 16 + y) mod 16 = y"
    by simp_all
  then have "toString16 (x * 16 + y) = toString16 x @ [hexDigit y]"
    by (subst toString16.simps) simp
  also from assms have "toString16 x = [hexDigit x]"
    by (subst toString16.simps) simp
  finally show ?thesis by (simp add: padStart_def)
qed

lemma hex_bytes:
  assumes "set hex \<subseteq> lowerHex" and "even (length hex)"
  shows "\<exists>bs. hexBytes hex = map (\<lambda>b. Some (int b)) bs \<and> (\<forall>b \<in> set bs. b < 256)
            \<and> length bs * 2 = length hex \<and> bytesToHex bs = hex"
  using assms
proof (induction hex rule: hexBytes.induct)
  case 1
  show ?case by (simp add: bytesToHex_def)
next
  case (2 c)
  then show ?case by simp
next
  case (3 c d cs)
  then obtain bs where bs: "hexBytes cs = map (\<lambda>b. Some (int b)) bs" "\<forall>b \<in> set bs. b < 256"
      "length bs * 2 = length cs" "bytesToHex bs = cs"
    by auto
  from 3 have c: "c \<in> lowerHex" and d: "d \<in> lowerHex" by simp_all
  define x where "x = the (digitValue c)"
  define y where "y = the (digitValue d)"
  from lowerHex_cases [OF c] have x: "x < 16" "hexDigit x = c" by (simp_all add: x_def)
  from lowerHex_cases [OF d] have y: "y < 16" "hexDigit y = d" by (simp_all add: y_def)
  from x y have "x * 16 + y < 256" by simp
  moreover have "hexBytes (c # d # cs) = map (\<lambda>b. Some (int b)) ((x * 16 + y) # bs)"
    using parseInt16_pair [OF c d] bs(1) by (simp add: x_def y_def)
  moreover have "bytesToHex ((x * 16 + y) # bs) = c # d # cs"
    using toString16_pair [OF x(1) y(1)] x(2) y(2) bs(4) by (simp add: bytesToHex_def)
  ultimately show ?case using bs(2,3) by (intro exI [of _ "(x * 16 + y) # bs"]) simp
qed

lemma indexOf_nth: "distinct xs \<Longrightarrow> i < length xs \<Longrightarrow> indexOf xs (xs ! i) = Some i"
proof (induction xs arbitrary: i)
  case Nil
  then show ?case by simp
next
  case (Cons x xs)
  show ?case
  proof (cases i)
    case 0
    then show ?thesis by simp
  next
    case (Suc j)
    with Cons.prems have "xs ! j \<in> set xs" and "x \<notin> set xs" by simp_all
    then have "x \<noteq> xs ! j" by auto
    with Suc Cons show ?thesis by simp
  qed
qed

lemma charset_distinct: "distinct BECH32_CHARSET" and charset_length: "length BECH32_CHARSET = 32"
  by (simp_all add: BECH32_CHARSET_def)

lemma decodeChars_charset:
  "\<forall>v \<in> set vs. v < 32 \<Longrightarrow> decodeChars (map (\<lambda>val. BECH32_CHARSET ! val) vs) = Inr vs"
  by (induction vs) (simp_all add: indexOf_nth charset_distinct charset_length)

lemma checksum_length: "length (bech32Checksum hrp data) = 6"
  by (simp add: bech32Checksum_def Let_def)

lemma digits_all_bound: "0 < b \<Longrightarrow> \<forall>d \<in> set (digits b n x). d < b"
  using digits_bound by blast

lemma startsWith_shorter:
  assumes "startsWith s (p @ q)"
  shows "startsWith s p"
proof -
  from assms have "take (length p) (take (length (p @ q)) s) = take (length p) (p @ q)"
    by (simp only: startsWith_def)
  then show ?thesis by (simp add: startsWith_def min_def)
qed

text \<open>What the encoder writes for a key of 32 bytes, and what the decoders read back.\<close>

lemma encoded_body:
  assumes "length hex = 64" and "set hex \<subseteq> lowerHex"
  shows "\<exists>bs. bytesToHex bs = hex \<and> length bs = 32 \<and> (\<forall>b \<in> set bs. b < 256)
           \<and> hexToBech32 hrp hex =
               (hrp @ ''1'') @ map (\<lambda>val. BECH32_CHARSET ! val)
                 (digits 32 53 (fromDigits 256 (0 # bs) * 2)
                  @ bech32Checksum hrp (digits 32 53 (fromDigits 256 (0 # bs) * 2)))"
proof -
  from assms have "even (length hex)" by simp
  with assms(2) obtain bs where bs: "hexBytes hex = map (\<lambda>b. Some (int b)) bs"
      "\<forall>b \<in> set bs. b < 256" "length bs * 2 = length hex" "bytesToHex bs = hex"
    using hex_bytes by blast
  from bs(3) assms(1) have len: "length bs = 32" by simp
  have "hex ! 1 \<in> set hex" using assms(1) by (intro nth_mem) simp
  with assms(2) lowerHex_cases [of "hex ! 1"] have "hex ! 1 \<noteq> CHR ''x''" by auto
  then have "\<not> startsWith hex ''0x''"
    using assms(1) by (cases hex; cases "tl hex") (auto simp add: startsWith_def)
  with assms(1) have pad: "padStart (strip0x hex) 64 = hex"
    by (simp add: strip0x_def padStart_def)
  have data: "Some 0 # hexBytes hex = map (\<lambda>b. Some (int b)) (0 # bs)"
    by (simp add: bs(1))
  have "eightToFive (Some 0 # hexBytes hex) 0 0 [] = digits 32 53 (fromDigits 256 (0 # bs) * 2)"
    unfolding data using bs(2) len by (intro eightToFive_33) simp_all
  with pad have "hexToBech32 hrp hex =
               (hrp @ ''1'') @ map (\<lambda>val. BECH32_CHARSET ! val)
                 (digits 32 53 (fromDigits 256 (0 # bs) * 2)
                  @ bech32Checksum hrp (digits 32 53 (fromDigits 256 (0 # bs) * 2)))"
    by (simp add: hexToBech32_def Let_def)
  with bs(2,4) len show ?thesis by blast
qed

lemma decoded_body:
  assumes "length bs = 32" and "\<forall>b \<in> set bs. b < 256"
  shows "fiveToEight (digits 32 53 (fromDigits 256 (0 # bs) * 2)) 0 0 [] = 0 # bs"
proof -
  define N where "N = fromDigits 256 (0 # bs)"
  from assms have all: "\<forall>b \<in> set (0 # bs). b < 256" by simp
  have "N = fromDigits 256 bs" by (simp add: N_def fromDigits_zero_Cons)
  also from assms have "\<dots> < 256 ^ 32" using fromDigits_less [of bs 256] by simp
  finally have "N * 2 < 32 ^ 53" by simp
  then have v: "fromDigits 32 (digits 32 53 (N * 2)) = N * 2"
    by (simp add: fromDigits_digits)
  have "\<forall>v \<in> set (digits 32 53 (N * 2)). v < 32"
    by (rule digits_all_bound) simp
  then have "fiveToEight (digits 32 53 (N * 2)) 0 0 []
      = digits 256 (5 * 53 div 8) (fromDigits 32 (digits 32 53 (N * 2)) div 2 ^ (5 * 53 mod 8))"
    using fiveToEight_digits [of "digits 32 53 (N * 2)"] by simp
  also have "\<dots> = digits 256 33 N" by (simp add: v)
  also have "\<dots> = 0 # bs" unfolding N_def using assms all by (intro digits_fromDigits) simp_all
  finally show ?thesis unfolding N_def .
qed

lemma body_of_encoding:
  assumes "length p = 5" and "length chk = 6"
  shows "slice (p @ body @ chk) 5 (- 6) = body"
  using assms by (simp add: slice_body)

text \<open>
  Claim C2. For every string of 64 lowercase hexadecimal characters (a value of 32 bytes),
  decoding the encoding gives the string back: \<open>npubToHex (hexToNpub hex) = hex\<close>, and
  likewise the event-id decoder \<open>note1ToHex\<close> on the encoding under the prefix \<open>note\<close>.
\<close>

theorem hex_round_trip:
  assumes "length hex = 64" and "set hex \<subseteq> lowerHex"
  shows "npubToHex (hexToNpub hex) = Inr hex \<and> note1ToHex (hexToBech32 ''note'' hex) = Inr hex"
proof -
  have *: "\<exists>bs. bytesToHex bs = hex
             \<and> startsWith (hexToBech32 hrp hex) (hrp @ ''1'')
             \<and> decodeChars (slice (hexToBech32 hrp hex) 5 (- 6))
                  = Inr (digits 32 53 (fromDigits 256 (0 # bs) * 2))
             \<and> dropVersion (fiveToEight (digits 32 53 (fromDigits 256 (0 # bs) * 2)) 0 0 []) = bs"
    if "length hrp = 4" for hrp
  proof -
    from encoded_body [OF assms, of hrp] obtain bs where bs: "bytesToHex bs = hex" "length bs = 32"
        "\<forall>b \<in> set bs. b < 256"
      and e: "hexToBech32 hrp hex =
               (hrp @ ''1'') @ map (\<lambda>val. BECH32_CHARSET ! val)
                 (digits 32 53 (fromDigits 256 (0 # bs) * 2)
                  @ bech32Checksum hrp (digits 32 53 (fromDigits 256 (0 # bs) * 2)))"
      by blast
    let ?conv = "digits 32 53 (fromDigits 256 (0 # bs) * 2)"
    have e': "hexToBech32 hrp hex = (hrp @ ''1'') @ map (\<lambda>val. BECH32_CHARSET ! val) ?conv
                @ map (\<lambda>val. BECH32_CHARSET ! val) (bech32Checksum hrp ?conv)"
      unfolding e by simp
    have 1: "startsWith (hexToBech32 hrp hex) (hrp @ ''1'')"
      unfolding e by (simp add: startsWith_def)
    have "slice (hexToBech32 hrp hex) 5 (- 6) = map (\<lambda>val. BECH32_CHARSET ! val) ?conv"
      unfolding e' using that by (intro body_of_encoding) (simp_all add: checksum_length)
    moreover have "\<forall>v \<in> set ?conv. v < 32" by (rule digits_all_bound) simp
    ultimately have 2: "decodeChars (slice (hexToBech32 hrp hex) 5 (- 6)) = Inr ?conv"
      by (simp add: decodeChars_charset)
    have 3: "dropVersion (fiveToEight ?conv 0 0 []) = bs"
      unfolding decoded_body [OF bs(2,3)] by (simp add: dropVersion_def sliceFrom_def slice_def)
    from bs(1) 1 2 3 show ?thesis by blast
  qed
  from * [of "''npub''"] obtain bs where "bytesToHex bs = hex"
      "startsWith (hexToNpub hex) ''npub1''"
      "decodeChars (slice (hexToNpub hex) 5 (- 6)) = Inr (digits 32 53 (fromDigits 256 (0 # bs) * 2))"
      "dropVersion (fiveToEight (digits 32 53 (fromDigits 256 (0 # bs) * 2)) 0 0 []) = bs"
    unfolding hexToNpub_def by auto
  moreover from this(2) have "startsWith (hexToNpub hex) ''npub''"
    using startsWith_shorter [of "hexToNpub hex" "''npub''" "''1''"] by simp
  ultimately have "npubToHex (hexToNpub hex) = Inr (padStart hex 64)"
    by (simp add: npubToHex_def decodeNpub_def)
  with assms(1) have n: "npubToHex (hexToNpub hex) = Inr hex" by (simp add: padStart_def)
  from * [of "''note''"] obtain bs where "bytesToHex bs = hex"
      "startsWith (hexToBech32 ''note'' hex) ''note1''"
      "decodeChars (slice (hexToBech32 ''note'' hex) 5 (- 6)) = Inr (digits 32 53 (fromDigits 256 (0 # bs) * 2))"
      "dropVersion (fiveToEight (digits 32 53 (fromDigits 256 (0 # bs) * 2)) 0 0 []) = bs"
    by auto
  then have "note1ToHex (hexToBech32 ''note'' hex) = Inr hex"
    by (simp add: note1ToHex_def)
  with n show ?thesis by simp
qed


theorem hex_round_trip_witness:
  "npubToHex (hexToNpub ''82341f882b6eabcd2ba7f1ef90aad961cf074af15b9ef44a09f9d2a8fbfbe6a2'')
     = Inr ''82341f882b6eabcd2ba7f1ef90aad961cf074af15b9ef44a09f9d2a8fbfbe6a2''
   \<and> note1ToHex (hexToBech32 ''note'' ''82341f882b6eabcd2ba7f1ef90aad961cf074af15b9ef44a09f9d2a8fbfbe6a2'')
     = Inr ''82341f882b6eabcd2ba7f1ef90aad961cf074af15b9ef44a09f9d2a8fbfbe6a2''"
  using hex_round_trip [of "''82341f882b6eabcd2ba7f1ef90aad961cf074af15b9ef44a09f9d2a8fbfbe6a2''"]
  by (simp add: lowerHex_def)


section \<open>The registry: what a step keeps\<close>

lemma foldl_keeps: "(\<And>w x. g (f w x) = g w) \<Longrightarrow> g (foldl f w xs) = g w"
  by (induction xs arbitrary: w) simp_all

lemma sendToOpen_eventHandlers [simp]: "eventHandlers (sendToOpen fr w) = eventHandlers w"
  unfolding sendToOpen_def by (rule foldl_keeps) (simp split: prod.splits)

lemma sendToOpen_subscriptions [simp]: "subscriptions (sendToOpen fr w) = subscriptions w"
  unfolding sendToOpen_def by (rule foldl_keeps) (simp split: prod.splits)

lemma sendToOpen_activeConnections [simp]: "activeConnections (sendToOpen fr w) = activeConnections w"
  unfolding sendToOpen_def by (rule foldl_keeps) (simp split: prod.splits)

lemma sendToOpen_readyState [simp]: "readyState (sendToOpen fr w) = readyState w"
  unfolding sendToOpen_def by (rule foldl_keeps) (simp split: prod.splits)

lemma sendToOpen_timers [simp]: "timers (sendToOpen fr w) = timers w"
  unfolding sendToOpen_def by (rule foldl_keeps) (simp split: prod.splits)

lemma sendToOpen_now [simp]: "now (sendToOpen fr w) = now w"
  unfolding sendToOpen_def by (rule foldl_keeps) (simp split: prod.splits)

lemma sendToOpen_calls [simp]: "calls (sendToOpen fr w) = calls w"
  unfolding sendToOpen_def by (rule foldl_keeps) (simp split: prod.splits)


lemma unsubscribe_eventHandlers [simp]:
  "eventHandlers (unsubscribe s w) = (eventHandlers w)(s := None)"
  by (simp add: unsubscribe_def)

lemma unsubscribe_subscriptions [simp]:
  "subscriptions (unsubscribe s w) = (subscriptions w)(s := None)"
  by (simp add: unsubscribe_def)

lemma unsubscribe_others [simp]:
  "activeConnections (unsubscribe s w) = activeConnections w"
  "readyState (unsubscribe s w) = readyState w"
  "timers (unsubscribe s w) = timers w"
  "now (unsubscribe s w) = now w"
  "calls (unsubscribe s w) = calls w"
  by (simp_all add: unsubscribe_def)

lemma subscribe_eventHandlers [simp]:
  "eventHandlers (subscribe s fs h eo w) =
     (eventHandlers w)(s \<mapsto> (case eventHandlers w s of None \<Rightarrow> [] | Some hs \<Rightarrow> hs) @ [h])"
  by (cases "eventHandlers w s") (simp_all add: subscribe_def Let_def)

lemma subscribe_subscriptions [simp]:
  "subscriptions (subscribe s fs h eo w) =
     (subscriptions w)(s \<mapsto> \<lparr>filters = fs, handler = h, onEOSE = eo\<rparr>)"
  by (simp add: subscribe_def Let_def)

lemma subscribe_others [simp]:
  "activeConnections (subscribe s fs h eo w) = activeConnections w"
  "readyState (subscribe s fs h eo w) = readyState w"
  "timers (subscribe s fs h eo w) = timers w"
  "now (subscribe s fs h eo w) = now w"
  "calls (subscribe s fs h eo w) = calls w"
  by (simp_all add: subscribe_def Let_def)


lemma setTimeout_fields [simp]:
  "eventHandlers (setTimeout t ms w) = eventHandlers w"
  "subscriptions (setTimeout t ms w) = subscriptions w"
  "activeConnections (setTimeout t ms w) = activeConnections w"
  "readyState (setTimeout t ms w) = readyState w"
  "sent (setTimeout t ms w) = sent w"
  "now (setTimeout t ms w) = now w"
  "calls (setTimeout t ms w) = calls w"
  "timers (setTimeout t ms w) = timers w @ [(now w + ms, t)]"
  by (simp_all add: setTimeout_def)

lemma callHandler_keeps:
  assumes c: "\<And>w c. g (w\<lparr>calls := c\<rparr>) = g w"
    and t: "\<And>w t. g (w\<lparr>timers := t\<rparr>) = g w"
  shows "g (fst (callHandler h e u w)) = g w"
proof (induction h arbitrary: u w)
  case (Callback k)
  show ?case by (simp add: c)
next
  case (Throwing k)
  show ?case by (simp add: c)
next
  case (OneTimeHandler eventId subscriptionId h)
  obtain w' b where r: "callHandler h e None w = (w', b)"
    by (cases "callHandler h e None w")
  with OneTimeHandler [of None w] have "g w' = g w" by simp
  with r show ?case by (cases b) (simp_all add: setTimeout_def t)
qed

lemma callHandler_fields [simp]:
  "eventHandlers (fst (callHandler h e u w)) = eventHandlers w"
  "subscriptions (fst (callHandler h e u w)) = subscriptions w"
  "activeConnections (fst (callHandler h e u w)) = activeConnections w"
  "readyState (fst (callHandler h e u w)) = readyState w"
  "sent (fst (callHandler h e u w)) = sent w"
  "now (fst (callHandler h e u w)) = now w"
  by (rule callHandler_keeps; simp)+

lemma forEachHandler_fields [simp]:
  "eventHandlers (forEachHandler hs e url w) = eventHandlers w"
  "subscriptions (forEachHandler hs e url w) = subscriptions w"
  "activeConnections (forEachHandler hs e url w) = activeConnections w"
  "readyState (forEachHandler hs e url w) = readyState w"
  "sent (forEachHandler hs e url w) = sent w"
  "now (forEachHandler hs e url w) = now w"
  unfolding forEachHandler_def by (rule foldl_keeps; simp)+

lemma forEachHandler_Nil [simp]: "forEachHandler [] e url w = w"
  by (simp add: forEachHandler_def)

lemma forEachHandler_Cons [simp]:
  "forEachHandler (h # hs) e url w = forEachHandler hs e url (fst (callHandler h e (Some url) w))"
  by (simp add: forEachHandler_def)

lemma forEachHandler_append:
  "forEachHandler (hs @ hs') e url w = forEachHandler hs' e url (forEachHandler hs e url w)"
  by (simp add: forEachHandler_def)


lemma foldl_preserves: "P w \<Longrightarrow> (\<And>w x. P w \<Longrightarrow> P (f w x)) \<Longrightarrow> P (foldl f w xs)"
  by (induction xs arbitrary: w) simp_all

lemma callEose_fields [simp]:
  "eventHandlers (fst (callEose f url w)) = eventHandlers w"
  "subscriptions (fst (callEose f url w)) = subscriptions w"
  "activeConnections (fst (callEose f url w)) = activeConnections w"
  "readyState (fst (callEose f url w)) = readyState w"
  "sent (fst (callEose f url w)) = sent w"
  "now (fst (callEose f url w)) = now w"
  by (cases f; simp)+

lemma handleEndOfStoredEvents_fields [simp]:
  "eventHandlers (fst (handleEndOfStoredEvents url sid w)) = eventHandlers w"
  "subscriptions (fst (handleEndOfStoredEvents url sid w)) = subscriptions w"
  "activeConnections (fst (handleEndOfStoredEvents url sid w)) = activeConnections w"
  "readyState (fst (handleEndOfStoredEvents url sid w)) = readyState w"
  "sent (fst (handleEndOfStoredEvents url sid w)) = sent w"
  "now (fst (handleEndOfStoredEvents url sid w)) = now w"
  by (simp_all add: handleEndOfStoredEvents_def split: option.splits)

lemma handleRelayMessage_fields [simp]:
  "eventHandlers (handleRelayMessage url m w) = eventHandlers w"
  "subscriptions (handleRelayMessage url m w) = subscriptions w"
  "activeConnections (handleRelayMessage url m w) = activeConnections w"
  "readyState (handleRelayMessage url m w) = readyState w"
  "sent (handleRelayMessage url m w) = sent w"
  "now (handleRelayMessage url m w) = now w"
  by (simp_all add: handleRelayMessage_def handleEvent_def split: message.splits option.splits)

lemma fireTimer_unregistered:
  "eventHandlers w sid = None \<Longrightarrow> eventHandlers (fireTimer t w) sid = None"
  by (cases t) simp_all

lemma fireTimer_unsubscribed:
  "subscriptions w sid = None \<Longrightarrow> subscriptions (fireTimer t w) sid = None"
  by (cases t) simp_all

lemma fireTimer_now [simp]: "now (fireTimer t w) = now w"
  by (cases t) simp_all

lemma fireTimer_timers [simp]: "timers (fireTimer t w) = timers w"
  by (cases t) simp_all

lemma elapse_unregistered:
  "eventHandlers w sid = None \<Longrightarrow> eventHandlers (elapse ms w) sid = None"
  unfolding elapse_def Let_def
  by (rule foldl_preserves) (simp_all add: fireTimer_unregistered)

lemma elapse_unsubscribed:
  "subscriptions w sid = None \<Longrightarrow> subscriptions (elapse ms w) sid = None"
  unfolding elapse_def Let_def
  by (rule foldl_preserves) (simp_all add: fireTimer_unsubscribed)

lemma closeAll_fields [simp]:
  "eventHandlers (closeAllConnections w) = Map.empty"
  "subscriptions (closeAllConnections w) = Map.empty"
  "activeConnections (closeAllConnections w) = []"
  by (simp_all add: closeAllConnections_def Let_def)

lemma closeAll_timers [simp]: "timers (closeAllConnections w) = timers w"
  unfolding closeAllConnections_def Let_def
  by simp (rule foldl_keeps, simp split: prod.splits)

lemma closeAll_now [simp]: "now (closeAllConnections w) = now w"
  unfolding closeAllConnections_def Let_def
  by simp (rule foldl_keeps, simp split: prod.splits)

lemma perform_unregistered:
  "eventHandlers w sid = None \<Longrightarrow> registers a \<noteq> Some sid \<Longrightarrow>
   eventHandlers (perform w a) sid = None"
  by (cases a) (auto simp add: fetchEvent_def Let_def removeConnection_def elapse_unregistered)

lemma run_unregistered:
  "eventHandlers w sid = None \<Longrightarrow> \<forall>a \<in> set acts. registers a \<noteq> Some sid \<Longrightarrow>
   eventHandlers (run acts w) sid = None"
  unfolding run_def
  by (induction acts arbitrary: w) (simp_all add: perform_unregistered)

lemma perform_unsubscribed:
  "subscriptions w sid = None \<Longrightarrow> registers a \<noteq> Some sid \<Longrightarrow>
   subscriptions (perform w a) sid = None"
  by (cases a) (auto simp add: fetchEvent_def Let_def removeConnection_def elapse_unsubscribed)

lemma run_unsubscribed:
  "subscriptions w sid = None \<Longrightarrow> \<forall>a \<in> set acts. registers a \<noteq> Some sid \<Longrightarrow>
   subscriptions (run acts w) sid = None"
  unfolding run_def
  by (induction acts arbitrary: w) (simp_all add: perform_unsubscribed)

lemma event_unregistered_noop:
  "eventHandlers w sid = None \<Longrightarrow>
   handleRelayMessage url (Message ''EVENT'' (Some sid) ed) w = w"
  by (simp add: handleRelayMessage_def handleEvent_def split: option.splits)

text \<open>
  Claim C5. In every execution that does not register the id again, an \<open>EVENT\<close> frame for a
  subscription id that arrives after \<open>unsubscribe\<close> of that id calls no callback: the frame
  leaves the whole world, the log of calls included, as it was. Unsubscribing an id that is
  not registered leaves both maps of the registry as they were.
\<close>

theorem unsubscribe_then_deliver:
  assumes "\<forall>a \<in> set acts. registers a \<noteq> Some sid"
  shows "handleRelayMessage url (Message ''EVENT'' (Some sid) ed) (run acts (unsubscribe sid w))
           = run acts (unsubscribe sid w)
       \<and> (eventHandlers w sid = None \<and> subscriptions w sid = None \<longrightarrow>
            eventHandlers (unsubscribe sid w) = eventHandlers w
          \<and> subscriptions (unsubscribe sid w) = subscriptions w)"
proof -
  have "eventHandlers (unsubscribe sid w) sid = None" by simp
  with assms have "eventHandlers (run acts (unsubscribe sid w)) sid = None"
    by (simp add: run_unregistered)
  then show ?thesis by (simp add: event_unregistered_noop fun_upd_idem)
qed


theorem unsubscribe_then_deliver_witness:
  "handleRelayMessage ''wss://relay.damus.io''
     (Message ''EVENT'' (Some ''posts'')
        (Some \<lparr>event_id = Some ''ab'', pubkey = Some ''cd'', kind = Some 1\<rparr>))
     (run [Elapse 10, Subscribe ''profile'' \<lparr>kinds = Some [0], authors = None, ids = None, limit = Some 1\<rparr> (Callback 2) None]
        (unsubscribe ''posts''
           (subscribe ''posts'' \<lparr>kinds = Some [1], authors = None, ids = None, limit = None\<rparr>
              (Callback 1) None constructor)))
   = run [Elapse 10, Subscribe ''profile'' \<lparr>kinds = Some [0], authors = None, ids = None, limit = Some 1\<rparr> (Callback 2) None]
        (unsubscribe ''posts''
           (subscribe ''posts'' \<lparr>kinds = Some [1], authors = None, ids = None, limit = None\<rparr>
              (Callback 1) None constructor))"
  using unsubscribe_then_deliver [of "[Elapse 10, Subscribe ''profile'' \<lparr>kinds = Some [0], authors = None, ids = None, limit = Some 1\<rparr> (Callback 2) None]" "''posts''"]
  by simp
section \<open>Dispatch of event frames\<close>

lemma run_Nil [simp]: "run [] w = w"
  by (simp add: run_def)

lemma run_Cons [simp]: "run (a # acts) w = run acts (perform w a)"
  by (simp add: run_def)

lemma run_append: "run (acts @ acts') w = run acts' (run acts w)"
  by (simp add: run_def)

lemma forEachHandler_callbacks:
  "calls (forEachHandler (map Callback ks) e url w) = calls w @ map (\<lambda>k. Call k e (Some url)) ks"
  by (induction ks arbitrary: w) simp_all

lemma event_frame_callbacks:
  assumes "eventHandlers w sid = Some (map Callback ks)" and "pubkey e \<noteq> None"
  shows "calls (handleRelayMessage url (Message ''EVENT'' (Some sid) (Some e)) w)
           = calls w @ map (\<lambda>k. Call k e (Some url)) ks"
  using assms by (auto simp add: handleRelayMessage_def handleEvent_def forEachHandler_callbacks)

lemma event_frames_callbacks:
  assumes "eventHandlers w sid = Some (map Callback ks)" and "pubkey e \<noteq> None"
  shows "calls (run (map (\<lambda>url. Inbound url (Message ''EVENT'' (Some sid) (Some e))) urls) w)
           = calls w @ concat (map (\<lambda>url. map (\<lambda>k. Call k e (Some url)) ks) urls)"
  using assms
  by (induction urls arbitrary: w) (simp_all add: event_frame_callbacks)

text \<open>
  Claim C8. The registry does not deduplicate across relays: after a subscription is
  registered under an id, each inbound \<open>EVENT\<close> frame that carries the id and an event
  object (one with a \<open>pubkey\<close>) calls the callback once, so the same event delivered by
  the relays \<open>urls\<close> calls it once for each of them, in the order of arrival.
\<close>

theorem no_deduplication:
  assumes "eventHandlers w sid = None" and "pubkey e \<noteq> None"
  shows "calls (run (map (\<lambda>url. Inbound url (Message ''EVENT'' (Some sid) (Some e))) urls)
                  (subscribe sid fs (Callback k) eo w))
           = calls w @ map (\<lambda>url. Call k e (Some url)) urls"
proof -
  have "eventHandlers (subscribe sid fs (Callback k) eo w) sid = Some (map Callback [k])"
    using assms(1) by simp
  from event_frames_callbacks [OF this assms(2), of urls] show ?thesis
    by (simp add: comp_def)
qed

theorem no_deduplication_witness:
  "calls (run (map (\<lambda>url. Inbound url (Message ''EVENT'' (Some ''posts'')
                  (Some \<lparr>event_id = Some ''ab'', pubkey = Some ''cd'', kind = Some 1\<rparr>)))
                [''wss://relay.damus.io'', ''wss://eden.nostr.land'', ''wss://relay.nostr.info''])
            (subscribe ''posts'' \<lparr>kinds = Some [1], authors = None, ids = None, limit = None\<rparr>
               (Callback 7) None constructor))
   = [Call 7 \<lparr>event_id = Some ''ab'', pubkey = Some ''cd'', kind = Some 1\<rparr> (Some ''wss://relay.damus.io''),
      Call 7 \<lparr>event_id = Some ''ab'', pubkey = Some ''cd'', kind = Some 1\<rparr> (Some ''wss://eden.nostr.land''),
      Call 7 \<lparr>event_id = Some ''ab'', pubkey = Some ''cd'', kind = Some 1\<rparr> (Some ''wss://relay.nostr.info'')]"
  using no_deduplication [of constructor "''posts''"
     "\<lparr>event_id = Some ''ab'', pubkey = Some ''cd'', kind = Some 1\<rparr>"
     "[''wss://relay.damus.io'', ''wss://eden.nostr.land'', ''wss://relay.nostr.info'']"
     "\<lparr>kinds = Some [1], authors = None, ids = None, limit = None\<rparr>" 7 None]
  by (simp add: constructor_def)

text \<open>
  Claim C9. A second \<open>subscribe\<close> under an id that is already registered overwrites the
  stored subscription record and appends one more entry to the handler list of the id, so
  that a following \<open>EVENT\<close> frame calls one callback for each \<open>subscribe\<close> made.
\<close>

theorem resubscribe_appends:
  assumes "eventHandlers w sid = Some hs"
  shows "subscriptions (subscribe sid fs h eo w) sid = Some \<lparr>filters = fs, handler = h, onEOSE = eo\<rparr>
       \<and> eventHandlers (subscribe sid fs h eo w) sid = Some (hs @ [h])
       \<and> (hs = map Callback ks \<and> h = Callback k \<and> pubkey e \<noteq> None \<longrightarrow>
            calls (handleRelayMessage url (Message ''EVENT'' (Some sid) (Some e))
                     (subscribe sid fs h eo w))
              = calls w @ map (\<lambda>k. Call k e (Some url)) (ks @ [k]))"
proof -
  have 1: "eventHandlers (subscribe sid fs h eo w) sid = Some (hs @ [h])"
    using assms by simp
  have "calls (handleRelayMessage url (Message ''EVENT'' (Some sid) (Some e))
                     (subscribe sid fs h eo w))
              = calls w @ map (\<lambda>k. Call k e (Some url)) (ks @ [k])"
    if "hs = map Callback ks" "h = Callback k" "pubkey e \<noteq> None"
  proof -
    from 1 that have "eventHandlers (subscribe sid fs h eo w) sid = Some (map Callback (ks @ [k]))"
      by simp
    from event_frame_callbacks [OF this that(3)] show ?thesis by simp
  qed
  with 1 show ?thesis by simp
qed

theorem resubscribe_appends_witness:
  "subscriptions (subscribe ''posts'' \<lparr>kinds = Some [1], authors = None, ids = None, limit = Some 5\<rparr> (Callback 2) None
      (subscribe ''posts'' \<lparr>kinds = Some [1], authors = None, ids = None, limit = None\<rparr> (Callback 1) None constructor)) ''posts''
     = Some \<lparr>filters = \<lparr>kinds = Some [1], authors = None, ids = None, limit = Some 5\<rparr>, handler = Callback 2, onEOSE = None\<rparr>
   \<and> eventHandlers (subscribe ''posts'' \<lparr>kinds = Some [1], authors = None, ids = None, limit = Some 5\<rparr> (Callback 2) None
      (subscribe ''posts'' \<lparr>kinds = Some [1], authors = None, ids = None, limit = None\<rparr> (Callback 1) None constructor)) ''posts''
     = Some [Callback 1, Callback 2]
   \<and> calls (handleRelayMessage ''wss://relay.damus.io''
        (Message ''EVENT'' (Some ''posts'') (Some \<lparr>event_id = Some ''ab'', pubkey = Some ''cd'', kind = Some 1\<rparr>))
        (subscribe ''posts'' \<lparr>kinds = Some [1], authors = None, ids = None, limit = Some 5\<rparr> (Callback 2) None
          (subscribe ''posts'' \<lparr>kinds = Some [1], authors = None, ids = None, limit = None\<rparr> (Callback 1) None constructor)))
     = [Call 1 \<lparr>event_id = Some ''ab'', pubkey = Some ''cd'', kind = Some 1\<rparr> (Some ''wss://relay.damus.io''),
        Call 2 \<lparr>event_id = Some ''ab'', pubkey = Some ''cd'', kind = Some 1\<rparr> (Some ''wss://relay.damus.io'')]"
  using resubscribe_appends [of
     "subscribe ''posts'' \<lparr>kinds = Some [1], authors = None, ids = None, limit = None\<rparr> (Callback 1) None constructor"
     "''posts''" "[Callback 1]"
     "\<lparr>kinds = Some [1], authors = None, ids = None, limit = Some 5\<rparr>" "Callback 2" None
     "[1]" 2 "\<lparr>event_id = Some ''ab'', pubkey = Some ''cd'', kind = Some 1\<rparr>" "''wss://relay.damus.io''"]
  by (simp add: constructor_def)

lemma callHandler_calls_grow:
  "set (calls w) \<subseteq> set (calls (fst (callHandler h e u w)))"
proof (induction h arbitrary: u w)
  case (OneTimeHandler eventId subscriptionId h)
  obtain w' b where r: "callHandler h e None w = (w', b)"
    by (cases "callHandler h e None w")
  with OneTimeHandler [of w None] have "set (calls w) \<subseteq> set (calls w')" by simp
  with r show ?case by (cases b) auto
qed auto

lemma forEachHandler_calls_grow:
  "set (calls w) \<subseteq> set (calls (forEachHandler hs e url w))"
proof (induction hs arbitrary: w)
  case (Cons h hs)
  from callHandler_calls_grow [of w h e "Some url"] Cons [of "fst (callHandler h e (Some url) w)"]
  show ?case by auto
qed simp

lemma forEachHandler_calls_callback:
  "Callback j \<in> set hs \<Longrightarrow> Call j e (Some url) \<in> set (calls (forEachHandler hs e url w))"
proof (induction hs arbitrary: w)
  case (Cons h hs)
  show ?case
  proof (cases "h = Callback j")
    case True
    have "Call j e (Some url) \<in> set (calls (fst (callHandler h e (Some url) w)))"
      using True by simp
    with forEachHandler_calls_grow [of "fst (callHandler h e (Some url) w)" hs e url]
    show ?thesis by auto
  next
    case False
    with Cons show ?thesis by simp
  qed
qed simp

text \<open>
  Claim C10. A handler that throws during the dispatch of an \<open>EVENT\<close> frame is caught
  inside the loop: \<open>handleEvent\<close> returns normally, the handlers after it in the list are
  still called for the frame, and the maps of the registry, the connections, the sockets
  and the frames sent are what they were.
\<close>

theorem throwing_handler_contained:
  assumes "eventHandlers w sid = Some (hs1 @ Throwing k # hs2)" and "pubkey e \<noteq> None"
  shows "handleEvent url (Some sid) e w =
           Inr (forEachHandler hs2 e url
                 ((forEachHandler hs1 e url w)
                    \<lparr>calls := calls (forEachHandler hs1 e url w) @ [Call k e (Some url)]\<rparr>))
       \<and> (\<forall>j. Callback j \<in> set hs2 \<longrightarrow>
             Call j e (Some url) \<in> set (calls (handleRelayMessage url (Message ''EVENT'' (Some sid) (Some e)) w)))
       \<and> eventHandlers (handleRelayMessage url (Message ''EVENT'' (Some sid) (Some e)) w) = eventHandlers w
       \<and> subscriptions (handleRelayMessage url (Message ''EVENT'' (Some sid) (Some e)) w) = subscriptions w
       \<and> activeConnections (handleRelayMessage url (Message ''EVENT'' (Some sid) (Some e)) w) = activeConnections w
       \<and> readyState (handleRelayMessage url (Message ''EVENT'' (Some sid) (Some e)) w) = readyState w
       \<and> sent (handleRelayMessage url (Message ''EVENT'' (Some sid) (Some e)) w) = sent w"
proof -
  let ?w1 = "(forEachHandler hs1 e url w)
                    \<lparr>calls := calls (forEachHandler hs1 e url w) @ [Call k e (Some url)]\<rparr>"
  have 1: "handleEvent url (Some sid) e w = Inr (forEachHandler hs2 e url ?w1)"
    using assms by (auto simp add: handleEvent_def forEachHandler_append)
  then have 2: "handleRelayMessage url (Message ''EVENT'' (Some sid) (Some e)) w
                  = forEachHandler hs2 e url ?w1"
    by (simp add: handleRelayMessage_def)
  have "Call j e (Some url) \<in> set (calls (forEachHandler hs2 e url ?w1))" if "Callback j \<in> set hs2" for j
    using that by (rule forEachHandler_calls_callback)
  with 1 2 show ?thesis by simp
qed

theorem throwing_handler_contained_witness:
  "handleEvent ''wss://relay.damus.io'' (Some ''posts'')
      \<lparr>event_id = Some ''ab'', pubkey = Some ''cd'', kind = Some 1\<rparr>
      (constructor\<lparr>eventHandlers := [''posts'' \<mapsto> [Callback 1, Throwing 2, Callback 3]]\<rparr>)
   = Inr (constructor\<lparr>eventHandlers := [''posts'' \<mapsto> [Callback 1, Throwing 2, Callback 3]],
            calls := [Call 1 \<lparr>event_id = Some ''ab'', pubkey = Some ''cd'', kind = Some 1\<rparr> (Some ''wss://relay.damus.io''),
                      Call 2 \<lparr>event_id = Some ''ab'', pubkey = Some ''cd'', kind = Some 1\<rparr> (Some ''wss://relay.damus.io''),
                      Call 3 \<lparr>event_id = Some ''ab'', pubkey = Some ''cd'', kind = Some 1\<rparr> (Some ''wss://relay.damus.io'')]\<rparr>)"
  using throwing_handler_contained [of
     "constructor\<lparr>eventHandlers := [''posts'' \<mapsto> [Callback 1, Throwing 2, Callback 3]]\<rparr>"
     "''posts''" "[Callback 1]" 2 "[Callback 3]"
     "\<lparr>event_id = Some ''ab'', pubkey = Some ''cd'', kind = Some 1\<rparr>" "''wss://relay.damus.io''"]
  by (simp add: constructor_def)

section \<open>Fetching one event\<close>

lemma elapse_now [simp]: "now (elapse ms w) = now w + ms"
  unfolding elapse_def Let_def
  by (simp add: foldl_keeps [where g = now])

lemma elapse_timers [simp]:
  "timers (elapse ms w) = filter (\<lambda>t. \<not> fst t \<le> now w + ms) (timers w)"
  unfolding elapse_def Let_def
  by (simp add: foldl_keeps [where g = timers])

lemma perform_now: "now (perform w a) = now w + elapsed [a]"
  by (cases a) (simp_all add: fetchEvent_def Let_def removeConnection_def)

lemma elapsed_Cons: "elapsed (a # acts) = elapsed [a] + elapsed acts"
  by (cases a) simp_all

lemma run_now: "now (run acts w) = now w + elapsed acts"
proof (induction acts arbitrary: w)
  case (Cons a acts)
  then show ?case using elapsed_Cons [of a acts] by (simp add: perform_now)
qed simp

lemma elapsed_append: "elapsed (acts @ acts') = elapsed acts + elapsed acts'"
proof (induction acts)
  case (Cons a acts)
  then show ?case using elapsed_Cons [of a acts] elapsed_Cons [of a "acts @ acts'"] by simp
qed simp

text \<open>Before the end-of-stored-events frame: the subscription is the one of the fetch, or gone.\<close>

lemma fireTimer_same_or_gone:
  "subscriptions w sid = None \<or> subscriptions w sid = Some sub \<Longrightarrow>
   subscriptions (fireTimer t w) sid = None \<or> subscriptions (fireTimer t w) sid = Some sub"
  by (cases t) auto

lemma elapse_same_or_gone:
  "subscriptions w sid = None \<or> subscriptions w sid = Some sub \<Longrightarrow>
   subscriptions (elapse ms w) sid = None \<or> subscriptions (elapse ms w) sid = Some sub"
  unfolding elapse_def Let_def
  by (rule foldl_preserves) (simp_all add: fireTimer_same_or_gone)

lemma perform_same_or_gone:
  "subscriptions w sid = None \<or> subscriptions w sid = Some sub \<Longrightarrow> registers a \<noteq> Some sid \<Longrightarrow>
   subscriptions (perform w a) sid = None \<or> subscriptions (perform w a) sid = Some sub"
  by (cases a) (auto simp add: fetchEvent_def Let_def removeConnection_def elapse_same_or_gone)

lemma run_same_or_gone:
  "subscriptions w sid = None \<or> subscriptions w sid = Some sub \<Longrightarrow>
   \<forall>a \<in> set acts. registers a \<noteq> Some sid \<Longrightarrow>
   subscriptions (run acts w) sid = None \<or> subscriptions (run acts w) sid = Some sub"
proof (induction acts arbitrary: w)
  case (Cons a acts)
  from Cons.prems have "subscriptions (perform w a) sid = None \<or> subscriptions (perform w a) sid = Some sub"
    by (simp add: perform_same_or_gone)
  with Cons show ?case by simp
qed simp


lemma callHandler_timers_grow: "set (timers w) \<subseteq> set (timers (fst (callHandler h e u w)))"
proof (induction h arbitrary: u w)
  case (OneTimeHandler eventId subscriptionId h)
  obtain w' b where r: "callHandler h e None w = (w', b)"
    by (cases "callHandler h e None w")
  with OneTimeHandler [of w None] have "set (timers w) \<subseteq> set (timers w')" by simp
  with r show ?case by (cases b) auto
qed auto

lemma forEachHandler_timers_grow: "set (timers w) \<subseteq> set (timers (forEachHandler hs e url w))"
proof (induction hs arbitrary: w)
  case (Cons h hs)
  from callHandler_timers_grow [of w h e "Some url"] Cons [of "fst (callHandler h e (Some url) w)"]
  show ?case by auto
qed simp

lemma callEose_timers_grow: "set (timers w) \<subseteq> set (timers (fst (callEose f url w)))"
  by (cases f) auto

lemma handleRelayMessage_timers_grow:
  "set (timers w) \<subseteq> set (timers (handleRelayMessage url m w))"
  by (auto simp add: handleRelayMessage_def handleEvent_def handleEndOfStoredEvents_def
        split: message.splits option.splits
        dest: subsetD [OF forEachHandler_timers_grow] subsetD [OF callEose_timers_grow])

lemma fired_cleanup:
  "t \<in> set ts \<Longrightarrow> snd t = CleanupLater eid sid \<Longrightarrow>
   subscriptions (foldl (\<lambda>w t. fireTimer (snd t) w) w ts) sid = None"
proof (induction ts arbitrary: w)
  case (Cons x ts)
  show ?case
  proof (cases "x = t")
    case True
    with Cons.prems have "subscriptions (fireTimer (snd x) w) sid = None" by simp
    then have "subscriptions (foldl (\<lambda>w t. fireTimer (snd t) w) (fireTimer (snd x) w) ts) sid = None"
      by (rule foldl_preserves) (simp add: fireTimer_unsubscribed)
    then show ?thesis by simp
  next
    case False
    with Cons show ?thesis by simp
  qed
qed simp

lemma elapse_cleanupPending:
  assumes "cleanupPending eid sid d w"
  shows "cleanupPending eid sid d (elapse ms w)"
proof (cases "subscriptions w sid = None")
  case True
  then show ?thesis by (simp add: cleanupPending_def elapse_unsubscribed)
next
  case False
  with assms have p: "(d, CleanupLater eid sid) \<in> set (timers w)" and "now w < d"
    by (simp_all add: cleanupPending_def)
  show ?thesis
  proof (cases "d \<le> now w + ms")
    case True
    with p have "(d, CleanupLater eid sid) \<in> set (sort_key fst (filter (\<lambda>t. fst t \<le> now w + ms) (timers w)))"
      by simp
    then have "subscriptions (elapse ms w) sid = None"
      unfolding elapse_def Let_def by (rule fired_cleanup) simp
    then show ?thesis by (simp add: cleanupPending_def)
  next
    case False
    with p show ?thesis by (simp add: cleanupPending_def)
  qed
qed

lemma perform_cleanupPending:
  assumes "cleanupPending eid sid d w" and "registers a \<noteq> Some sid"
  shows "cleanupPending eid sid d (perform w a)"
proof (cases a)
  case (Inbound url m)
  with assms handleRelayMessage_timers_grow [of w url m] show ?thesis
    by (auto simp add: cleanupPending_def)
next
  case (Elapse ms)
  with assms show ?thesis by (simp add: elapse_cleanupPending)
qed (use assms in \<open>auto simp add: cleanupPending_def fetchEvent_def Let_def removeConnection_def\<close>)

lemma run_cleanupPending:
  "cleanupPending eid sid d w \<Longrightarrow> \<forall>a \<in> set acts. registers a \<noteq> Some sid \<Longrightarrow>
   cleanupPending eid sid d (run acts w)"
  by (induction acts arbitrary: w) (simp_all add: perform_cleanupPending)

lemma eose_cleanupPending:
  assumes "subscriptions w sid = None \<or> subscriptions w sid = Some sub"
    and "onEOSE sub = Some (FetchEose eid sid)"
  shows "cleanupPending eid sid (now w + 2000)
           (handleRelayMessage url (Message ''EOSE'' (Some sid) ed) w)"
  using assms
  by (auto simp add: cleanupPending_def handleRelayMessage_def handleEndOfStoredEvents_def)

text \<open>
  Claim C3, amended. The cleanup of a fetch is set up by the end-of-stored-events frame.
  In every execution in which a relay sends that frame for the subscription of the fetch,
  and the id is not registered again, the subscription map no longer contains the id once
  two seconds have passed after the frame, whether or not a matching event arrived.
\<close>

theorem fetch_cleanup_after_eose:
  assumes "\<forall>a \<in> set (acts1 @ acts2). registers a \<noteq> Some (''event_'' @ slice eid 0 8)"
    and "2000 \<le> elapsed acts2"
  shows "subscriptions
           (run (acts1 @ [Inbound url (Message ''EOSE'' (Some (''event_'' @ slice eid 0 8)) ed)] @ acts2)
              (fetchEvent eid h w))
           (''event_'' @ slice eid 0 8) = None"
proof -
  let ?sid = "''event_'' @ slice eid 0 8"
  let ?sub = "\<lparr>filters = \<lparr>kinds = None, authors = None, ids = Some [eid], limit = Some 1\<rparr>,
               handler = OneTimeHandler eid ?sid h, onEOSE = Some (FetchEose eid ?sid)\<rparr>"
  let ?w1 = "run acts1 (fetchEvent eid h w)"
  let ?w2 = "handleRelayMessage url (Message ''EOSE'' (Some ?sid) ed) ?w1"
  have "subscriptions (fetchEvent eid h w) ?sid = Some ?sub"
    by (simp add: fetchEvent_def Let_def)
  then have "subscriptions ?w1 ?sid = None \<or> subscriptions ?w1 ?sid = Some ?sub"
    using assms(1) by (intro run_same_or_gone) simp_all
  then have "cleanupPending eid ?sid (now ?w1 + 2000) ?w2"
    by (rule eose_cleanupPending) simp
  then have "cleanupPending eid ?sid (now ?w1 + 2000) (run acts2 ?w2)"
    using assms(1) by (intro run_cleanupPending) simp_all
  moreover have "now (run acts2 ?w2) = now ?w1 + elapsed acts2"
    by (simp add: run_now)
  ultimately have "subscriptions (run acts2 ?w2) ?sid = None"
    using assms(2) by (simp add: cleanupPending_def)
  then show ?thesis by (simp add: run_append)
qed


theorem fetch_cleanup_after_eose_witness:
  "subscriptions
     (run ([Inbound ''wss://relay.damus.io'' (Message ''CLOSED'' (Some ''posts'') None)]
           @ [Inbound ''wss://relay.damus.io'' (Message ''EOSE'' (Some (''event_'' @ slice ''0123456789abcdef'' 0 8)) None)]
           @ [Elapse 500, Unsubscribe ''posts'', Elapse 1500])
        (fetchEvent ''0123456789abcdef'' (Callback 0)
           (constructor\<lparr>activeConnections := [(''wss://relay.damus.io'', 0)],
                         readyState := (\<lambda>ws. OPEN)\<rparr>)))
     (''event_'' @ slice ''0123456789abcdef'' 0 8) = None"
  using fetch_cleanup_after_eose [of
      "[Inbound ''wss://relay.damus.io'' (Message ''CLOSED'' (Some ''posts'') None)]"
      "[Elapse 500, Unsubscribe ''posts'', Elapse 1500]" "''0123456789abcdef''"]
  by (simp add: slice_def)

text \<open>
  Claim C3 as stated fails: with an open relay that never sends an end-of-stored-events
  frame no timeout is ever set, and after an hour the subscription is still registered.
\<close>

theorem fetch_without_eose_counterexample:
  "subscriptions
     (run [Elapse 3600000]
        (fetchEvent ''0123456789abcdef'' (Callback 0)
           (constructor\<lparr>activeConnections := [(''wss://relay.damus.io'', 0)],
                         readyState := (\<lambda>ws. OPEN)\<rparr>)))
     ''event_01234567''
   = Some \<lparr>filters = \<lparr>kinds = None, authors = None, ids = Some [''0123456789abcdef''], limit = Some 1\<rparr>,
           handler = OneTimeHandler ''0123456789abcdef'' ''event_01234567'' (Callback 0),
           onEOSE = Some (FetchEose ''0123456789abcdef'' ''event_01234567'')\<rparr>
   \<and> timers (fetchEvent ''0123456789abcdef'' (Callback 0)
           (constructor\<lparr>activeConnections := [(''wss://relay.damus.io'', 0)],
                         readyState := (\<lambda>ws. OPEN)\<rparr>)) = []"
  by (simp add: fetchEvent_def slice_def elapse_def constructor_def Let_def)

section \<open>Connecting to the relays\<close>

lemma resolve_attempts:
  "attempts (resolve k p) =
     (attempts p)[k := (attempts p ! k)\<lparr>promise :=
        (if promise (attempts p ! k) = Pending then Fulfilled else promise (attempts p ! k))\<rparr>]"
  by (simp add: resolve_def Let_def)

lemma reject_attempts:
  "attempts (reject k p) =
     (attempts p)[k := (attempts p ! k)\<lparr>promise :=
        (if promise (attempts p ! k) = Pending then Rejected else promise (attempts p ! k))\<rparr>]"
  by (simp add: reject_def Let_def)

lemma removeConnection_attempts [simp]: "attempts (removeConnection s p) = attempts p"
  by (simp add: removeConnection_def)

lemma socketEvent_attempts:
  "attempts (socketEvent p e) = (attempts p)[target e := after e (attempts p ! target e)]"
proof (cases "target e < length (attempts p)")
  case False
  then have "length (attempts p) \<le> target e" by simp
  then have "(attempts p)[target e := x] = attempts p" for x by (rule list_update_beyond)
  moreover from False have "socketEvent p e = p" by (cases e) simp_all
  ultimately show ?thesis by simp
next
  case True
  then show ?thesis
    by (cases e)
       (simp_all add: onopen_def onerror_def onclose_def timeoutFires_def Let_def
          resolve_attempts reject_attempts)
qed

lemma socketEvent_length [simp]: "length (attempts (socketEvent p e)) = length (attempts p)"
  by (simp add: socketEvent_attempts)

lemma run_length [simp]: "length (attempts (foldl socketEvent p evs)) = length (attempts p)"
  by (induction evs arbitrary: p) simp_all



lemma after_relay [simp]: "relay (after e a) = relay a"
  by (cases e) simp_all


lemma outcomeOf_Cons:
  "outcomeOf k (e # evs) =
     (if target e = k \<and> outcomeOf k [e] \<noteq> Pending then outcomeOf k [e] else outcomeOf k evs)"
  by (cases e) auto

lemma outcomeOf_other: "target e \<noteq> k \<Longrightarrow> outcomeOf k (e # evs) = outcomeOf k evs"
  by (cases e) auto

lemma outcomeOf_Close: "target e = k \<Longrightarrow> outcomeOf k [e] = Pending \<Longrightarrow> \<exists>j. e = OnClose j"
  by (cases e) (auto split: if_splits)














lemma connectToRelays_length [simp]:
  "length (attempts (connectToRelays urls first w)) = length urls"
  by (simp add: connectToRelays_def)












end
